theory Spec2Isabelle
  imports Main "HOL-Library.Multiset"
begin

section \<open>Data model (src/app/blockStore.ts, src/app/page.tsx)\<close>

text \<open>
  A block of either axis, as the type \<^verbatim>\<open>Block\<close> of both source files declares it. The
  field \<^verbatim>\<open>id\<close> is called \<open>idB\<close> here, since \<open>id\<close> is the identity function of HOL.
  \<^verbatim>\<open>parentId: string | null\<close> is an option.
\<close>

record Block =
  idB :: string
  label :: string
  parentId :: "string option"
  children :: "string list"

datatype Axis = Row | Column

record BlockState =
  rowBlocks :: "Block list"
  columnBlocks :: "Block list"

text \<open>
  What a call can end in other than a value. \<open>TypeError\<close> is the exception of reading a
  property of \<^verbatim>\<open>undefined\<close>. \<open>UndefinedElement\<close> is not an exception: it marks a call
  that would store \<^verbatim>\<open>undefined\<close> in an array of strings, which the lists below cannot hold.
\<close>

datatype error = TypeError | UndefinedElement

section \<open>The JavaScript array primitives the code uses\<close>

text \<open>
  \<^verbatim>\<open>Array.prototype.indexOf\<close> and \<^verbatim>\<open>findIndex\<close>: the first index, or \<open>-1\<close>.
\<close>

fun findIndex :: "('a \<Rightarrow> bool) \<Rightarrow> 'a list \<Rightarrow> int" where
  "findIndex P [] = -1"
| "findIndex P (x # xs) =
     (if P x then 0 else (let i = findIndex P xs in if i = -1 then -1 else i + 1))"

definition indexOf :: "'a list \<Rightarrow> 'a \<Rightarrow> int" where
  "indexOf xs a = findIndex (\<lambda>x. x = a) xs"

text \<open>
  \<^verbatim>\<open>xs.splice(start, deleteCount, ...items)\<close>, the array it leaves behind: a negative
  \<open>start\<close> counts from the end, and both arguments are clamped to the array.
\<close>

definition spliceJS :: "int \<Rightarrow> int \<Rightarrow> 'a list \<Rightarrow> 'a list \<Rightarrow> 'a list" where
  "spliceJS start deleteCount items xs =
     (let len = int (length xs);
          actualStart = (if start < 0 then max (len + start) 0 else min start len);
          actualDeleteCount = min (max deleteCount 0) (len - actualStart)
      in take (nat actualStart) xs @ items @ drop (nat (actualStart + actualDeleteCount)) xs)"

text \<open>The elements \<^verbatim>\<open>splice\<close> returns: the ones it deleted.\<close>

definition spliceRemoved :: "int \<Rightarrow> int \<Rightarrow> 'a list \<Rightarrow> 'a list" where
  "spliceRemoved start deleteCount xs =
     (let len = int (length xs);
          actualStart = (if start < 0 then max (len + start) 0 else min start len);
          actualDeleteCount = min (max deleteCount 0) (len - actualStart)
      in take (nat actualDeleteCount) (drop (nat actualStart) xs))"

text \<open>
  \<^verbatim>\<open>blocks.find(b => b.id === i)\<close>: the first block with that identifier.
\<close>

definition findBlock :: "Block list \<Rightarrow> string \<Rightarrow> Block option" where
  "findBlock blocks i = find (\<lambda>b. idB b = i) blocks"

text \<open>
  The store's recipes run on a draft of the state and mutate the object that \<^verbatim>\<open>find\<close>
  returned. In the value model the first element satisfying the predicate is replaced.
\<close>

fun mutateFirst :: "('a \<Rightarrow> bool) \<Rightarrow> ('a \<Rightarrow> 'a) \<Rightarrow> 'a list \<Rightarrow> 'a list" where
  "mutateFirst P f [] = []"
| "mutateFirst P f (x # xs) = (if P x then f x # xs else x # mutateFirst P f xs)"

text \<open>\<^verbatim>\<open>axis === "row" ? state.rowBlocks : state.columnBlocks\<close>, read and written.\<close>

definition axisBlocks :: "Axis \<Rightarrow> BlockState \<Rightarrow> Block list" where
  "axisBlocks axis state = (if axis = Row then rowBlocks state else columnBlocks state)"

definition setAxisBlocks :: "Axis \<Rightarrow> Block list \<Rightarrow> BlockState \<Rightarrow> BlockState" where
  "setAxisBlocks axis blocks state =
     (if axis = Row then state\<lparr>rowBlocks := blocks\<rparr> else state\<lparr>columnBlocks := blocks\<rparr>)"

section \<open>The store's actions (src/app/blockStore.ts)\<close>

text \<open>
  Each action is a recipe passed to \<^verbatim>\<open>set\<close>: it reads the list of one axis, returns early
  or mutates it in place, and the store takes over the result. The functions below take
  the state and return the new one.
\<close>

definition reorderBlock :: "Axis \<Rightarrow> string \<Rightarrow> string \<Rightarrow> string \<Rightarrow> BlockState \<Rightarrow> BlockState" where
  "reorderBlock axis parentId' activeId overId state =
     (let blocks = axisBlocks axis state in
      case findBlock blocks parentId' of
        None \<Rightarrow> state
      | Some parent \<Rightarrow>
          (let from = indexOf (children parent) activeId;
               to = indexOf (children parent) overId
           in if from = -1 \<or> to = -1 then state
              else setAxisBlocks axis
                     (mutateFirst (\<lambda>b. idB b = parentId')
                        (\<lambda>p. p\<lparr>children :=
                                spliceJS to 0 [activeId] (spliceJS from 1 [] (children p))\<rparr>)
                        blocks)
                     state))"

definition updateLabel :: "Axis \<Rightarrow> string \<Rightarrow> string \<Rightarrow> BlockState \<Rightarrow> BlockState" where
  "updateLabel axis i l state =
     (let blocks = axisBlocks axis state in
      case findBlock blocks i of
        None \<Rightarrow> state
      | Some block \<Rightarrow>
          setAxisBlocks axis (mutateFirst (\<lambda>b. idB b = i) (\<lambda>b. b\<lparr>label := l\<rparr>) blocks) state)"

definition addBlock :: "Axis \<Rightarrow> string \<Rightarrow> Block \<Rightarrow> BlockState \<Rightarrow> BlockState" where
  "addBlock axis parentId' block state =
     (let blocks = axisBlocks axis state in
      case findBlock blocks parentId' of
        None \<Rightarrow> state
      | Some parent \<Rightarrow>
          setAxisBlocks axis
            (mutateFirst (\<lambda>b. idB b = parentId')
               (\<lambda>p. p\<lparr>children := children p @ [idB block]\<rparr>) blocks
             @ [block])
            state)"

text \<open>
  \<^verbatim>\<open>if (block.parentId)\<close> tests JavaScript truthiness: \<^verbatim>\<open>null\<close> and the empty
  string are both falsy.
\<close>

definition truthy :: "string option \<Rightarrow> bool" where
  "truthy p = (case p of None \<Rightarrow> False | Some s \<Rightarrow> s \<noteq> [])"

text \<open>
  Step 1 of \<^verbatim>\<open>removeBlock\<close>: \<^verbatim>\<open>parent?.children.splice(parent.children.indexOf(id), 1)\<close>.
\<close>

definition removeFromParent :: "Block \<Rightarrow> string \<Rightarrow> Block list \<Rightarrow> Block list" where
  "removeFromParent block i blocks =
     (if truthy (parentId block) then
        (case findBlock blocks (the (parentId block)) of
           None \<Rightarrow> blocks
         | Some parent \<Rightarrow>
             mutateFirst (\<lambda>b. Some (idB b) = parentId block)
               (\<lambda>p. p\<lparr>children := spliceJS (indexOf (children p) i) 1 [] (children p)\<rparr>)
               blocks)
      else blocks)"

text \<open>
  \<^verbatim>\<open>cs.forEach(f)\<close> for a callback that updates the set \<^verbatim>\<open>removeIds\<close> and may not
  return (\<open>None\<close>).
\<close>

fun forEach :: "('a \<Rightarrow> 's \<Rightarrow> 's option) \<Rightarrow> 'a list \<Rightarrow> 's \<Rightarrow> 's option" where
  "forEach f [] s = Some s"
| "forEach f (c # cs) s = (case f c s of None \<Rightarrow> None | Some s' \<Rightarrow> forEach f cs s')"

text \<open>
  Step 2, the closure \<^verbatim>\<open>dfs\<close>. It keeps no visited check, so on a cyclic child graph it
  recurses forever: the first argument bounds the recursion depth, and \<open>None\<close> says
  that the bound was reached.
\<close>

primrec dfs :: "nat \<Rightarrow> Block list \<Rightarrow> string \<Rightarrow> string set \<Rightarrow> string set option" where
  "dfs 0 blocks bid removeIds = None"
| "dfs (Suc n) blocks bid removeIds =
     (case findBlock blocks bid of
        None \<Rightarrow> Some (insert bid removeIds)
      | Some b \<Rightarrow> forEach (dfs n blocks) (children b) (insert bid removeIds))"

text \<open>
  Step 3, the loop \<^verbatim>\<open>for (let i = blocks.length - 1; i >= 0; i--)\<close>; the first argument
  is \<open>i + 1\<close>.
\<close>

fun removeLoop :: "nat \<Rightarrow> string set \<Rightarrow> Block list \<Rightarrow> Block list" where
  "removeLoop 0 removeIds blocks = blocks"
| "removeLoop (Suc i) removeIds blocks =
     removeLoop i removeIds
       (if idB (blocks ! i) \<in> removeIds then spliceJS (int i) 1 [] blocks else blocks)"

text \<open>
  \<^verbatim>\<open>removeBlock\<close>: nothing happens when \<open>id\<close> is not found; otherwise steps 1 to 3 run on
  the axis's list. The result is \<open>None\<close> when \<^verbatim>\<open>dfs\<close> does not return within the depth
  bound \<open>fuel\<close>: the recipe then never reaches step 3 and the store keeps its state.
\<close>

definition removeBlock :: "nat \<Rightarrow> Axis \<Rightarrow> string \<Rightarrow> BlockState \<Rightarrow> BlockState option" where
  "removeBlock fuel axis i state =
     (let blocks = axisBlocks axis state;
          idx = findIndex (\<lambda>b. idB b = i) blocks
      in if idx = -1 then Some state
         else
           (let block = blocks ! nat idx;
                blocks1 = removeFromParent block i blocks
            in case dfs fuel blocks1 i {} of
                 None \<Rightarrow> None
               | Some removeIds \<Rightarrow>
                   Some (setAxisBlocks axis
                           (removeLoop (length blocks1) removeIds blocks1) state)))"

section \<open>The page's helpers (src/app/page.tsx)\<close>

text \<open>
  \<^verbatim>\<open>new Map(blocks.map(b => [b.id, b]))\<close>: a later block with the same identifier
  replaces an earlier one.
\<close>

definition buildMap :: "Block list \<Rightarrow> (string \<rightharpoonup> Block)" where
  "buildMap blocks = fold (\<lambda>b m. m(idB b \<mapsto> b)) blocks Map.empty"

text \<open>
  \<^verbatim>\<open>cs.reduce(f, s)\<close> and \<^verbatim>\<open>cs.flatMap(f)\<close> for a callback that may throw
  (\<open>Some (Inl e)\<close>) or not return (\<open>None\<close>): the elements are visited in order and the
  first callback that does not return a value ends the call.
\<close>

fun reduceJS :: "('s \<Rightarrow> 'a \<Rightarrow> (error + 's) option) \<Rightarrow> 'a list \<Rightarrow> 's \<Rightarrow> (error + 's) option" where
  "reduceJS f [] s = Some (Inr s)"
| "reduceJS f (c # cs) s =
     (case f s c of
        None \<Rightarrow> None
      | Some (Inl e) \<Rightarrow> Some (Inl e)
      | Some (Inr s') \<Rightarrow> reduceJS f cs s')"

fun flatMapJS :: "('a \<Rightarrow> (error + 'b list) option) \<Rightarrow> 'a list \<Rightarrow> (error + 'b list) option" where
  "flatMapJS f [] = Some (Inr [])"
| "flatMapJS f (c # cs) =
     (case f c of
        None \<Rightarrow> None
      | Some (Inl e) \<Rightarrow> Some (Inl e)
      | Some (Inr ys) \<Rightarrow>
          (case flatMapJS f cs of
             None \<Rightarrow> None
           | Some (Inl e) \<Rightarrow> Some (Inl e)
           | Some (Inr zs) \<Rightarrow> Some (Inr (ys @ zs))))"

text \<open>
  \<^verbatim>\<open>leafCount\<close> and \<^verbatim>\<open>flattenLeaves\<close>. \<^verbatim>\<open>map.get(id)!\<close> only silences the type checker:
  on a missing key \<^verbatim>\<open>b\<close> is \<^verbatim>\<open>undefined\<close> and \<^verbatim>\<open>b.children\<close> throws a TypeError. Neither
  function keeps a visited check, so the first argument bounds the recursion depth and
  \<open>None\<close> says that the bound was reached. Leaf counts are natural numbers (far below
  the range in which JavaScript numbers stop being exact).
\<close>

primrec leafCount :: "nat \<Rightarrow> string \<Rightarrow> (string \<rightharpoonup> Block) \<Rightarrow> (error + nat) option" where
  "leafCount 0 i m = None"
| "leafCount (Suc n) i m =
     (case m i of
        None \<Rightarrow> Some (Inl TypeError)
      | Some b \<Rightarrow>
          if length (children b) = 0 then Some (Inr 1)
          else reduceJS
                 (\<lambda>s c. case leafCount n c m of
                           None \<Rightarrow> None
                         | Some (Inl e) \<Rightarrow> Some (Inl e)
                         | Some (Inr k) \<Rightarrow> Some (Inr (s + k)))
                 (children b) 0)"

primrec flattenLeaves :: "nat \<Rightarrow> string \<Rightarrow> (string \<rightharpoonup> Block) \<Rightarrow> (error + string list) option" where
  "flattenLeaves 0 i m = None"
| "flattenLeaves (Suc n) i m =
     (case m i of
        None \<Rightarrow> Some (Inl TypeError)
      | Some b \<Rightarrow>
          if length (children b) = 0 then Some (Inr [i])
          else flatMapJS (\<lambda>c. flattenLeaves n c m) (children b))"

text \<open>
  Modelled from the spec: \<^verbatim>\<open>arrayMove\<close> is imported from the package
  \<^verbatim>\<open>@dnd-kit/sortable\<close>; its body is not among the sources. The spec calls the move a
  list splice that puts the first identifier at the position of the second. The definition
  follows the package: copy the array, \<^verbatim>\<open>splice(from, 1)\<close> takes the element out, and
  \<^verbatim>\<open>splice(to < 0 ? length + to : to, 0, element)\<close> puts it back, the target index being
  computed before the removal. When nothing was removed the element is \<^verbatim>\<open>undefined\<close>.
\<close>

definition arrayMove :: "'a list \<Rightarrow> int \<Rightarrow> int \<Rightarrow> error + 'a list" where
  "arrayMove array from to =
     (let start = (if to < 0 then int (length array) + to else to);
          removed = spliceRemoved from 1 array;
          newArray = spliceJS from 1 [] array
      in case removed of
           [] \<Rightarrow> Inl UndefinedElement
         | x # _ \<Rightarrow> Inr (spliceJS start 0 [x] newArray))"

text \<open>
  \<^verbatim>\<open>reorder\<close>, the page's own reordering. \<^verbatim>\<open>map.get(a.parentId!)!\<close> is \<^verbatim>\<open>undefined\<close>
  when \<^verbatim>\<open>a.parentId\<close> is \<^verbatim>\<open>null\<close> or names no block, and \<^verbatim>\<open>parent.children\<close> then throws.
\<close>

definition reorder :: "Block list \<Rightarrow> string \<Rightarrow> string \<Rightarrow> error + Block list" where
  "reorder blocks aId bId =
     (let m = buildMap blocks in
      case m aId of
        None \<Rightarrow> Inr blocks
      | Some a \<Rightarrow>
          (case m bId of
             None \<Rightarrow> Inr blocks
           | Some b \<Rightarrow>
               if parentId a \<noteq> parentId b then Inr blocks
               else
                 (case (case parentId a of None \<Rightarrow> None | Some pid \<Rightarrow> m pid) of
                    None \<Rightarrow> Inl TypeError
                  | Some parent \<Rightarrow>
                      (case arrayMove (children parent)
                              (indexOf (children parent) (idB a))
                              (indexOf (children parent) (idB b)) of
                         Inl e \<Rightarrow> Inl e
                       | Inr next \<Rightarrow>
                           Inr (map (\<lambda>bl. if idB bl = idB parent
                                           then bl\<lparr>children := next\<rparr> else bl)
                                  blocks)))))"

section \<open>Notions the properties are stated with\<close>

text \<open>The axis an action leaves alone.\<close>

definition otherAxis :: "Axis \<Rightarrow> Axis" where
  "otherAxis axis = (if axis = Row then Column else Row)"

text \<open>A list without its element at index \<open>k\<close>, and with \<open>x\<close> put in at index \<open>k\<close>.\<close>

definition dropAt :: "nat \<Rightarrow> 'a list \<Rightarrow> 'a list" where
  "dropAt k xs = take k xs @ drop (Suc k) xs"

definition insertAt :: "nat \<Rightarrow> 'a \<Rightarrow> 'a list \<Rightarrow> 'a list" where
  "insertAt k x xs = take k xs @ [x] @ drop k xs"

text \<open>The store's initial state, and blocks of it that the examples below use.\<close>

definition initialState :: BlockState where
  "initialState =
     \<lparr>rowBlocks =
        [\<lparr>idB = ''ROW_ROOT'', label = ''RowRoot'', parentId = None, children = [''ROW_A'', ''ROW_B'']\<rparr>,
         \<lparr>idB = ''ROW_A'', label = ''Row-A'', parentId = Some ''ROW_ROOT'', children = [''ROW_A1'', ''ROW_A2'']\<rparr>,
         \<lparr>idB = ''ROW_B'', label = ''Row-B'', parentId = Some ''ROW_ROOT'', children = [''ROW_B1'']\<rparr>,
         \<lparr>idB = ''ROW_A1'', label = ''row-a1'', parentId = Some ''ROW_A'', children = []\<rparr>,
         \<lparr>idB = ''ROW_A2'', label = ''row-a2'', parentId = Some ''ROW_A'', children = []\<rparr>,
         \<lparr>idB = ''ROW_B1'', label = ''row-b1'', parentId = Some ''ROW_B'', children = []\<rparr>],
      columnBlocks =
        [\<lparr>idB = ''COL_ROOT'', label = ''ColRoot'', parentId = None, children = [''COL_X'', ''COL_Y'']\<rparr>,
         \<lparr>idB = ''COL_X'', label = ''Col-X'', parentId = Some ''COL_ROOT'', children = [''X1'', ''X2'']\<rparr>,
         \<lparr>idB = ''COL_Y'', label = ''Col-Y'', parentId = Some ''COL_ROOT'', children = [''Y1'']\<rparr>,
         \<lparr>idB = ''X1'', label = ''x1'', parentId = Some ''COL_X'', children = []\<rparr>,
         \<lparr>idB = ''X2'', label = ''x2'', parentId = Some ''COL_X'', children = []\<rparr>,
         \<lparr>idB = ''Y1'', label = ''y1'', parentId = Some ''COL_Y'', children = []\<rparr>]\<rparr>"

definition rowB :: Block where
  "rowB = \<lparr>idB = ''ROW_B'', label = ''Row-B'', parentId = Some ''ROW_ROOT'', children = [''ROW_B1'']\<rparr>"
definition rowA :: Block where
  "rowA = \<lparr>idB = ''ROW_A'', label = ''Row-A'', parentId = Some ''ROW_ROOT'', children = [''ROW_A1'', ''ROW_A2'']\<rparr>"
definition rowB2 :: Block where
  "rowB2 = \<lparr>idB = ''ROW_B2'', label = ''row-b2'', parentId = Some ''ROW_B'', children = []\<rparr>"

text \<open>
  The child graph of a block map: an edge from a key to each identifier in the child
  sequence of its block. \<open>subtreeRel m i\<close> keeps the edges that leave a node reachable
  from \<open>i\<close>, and \<open>subtreeIds m i\<close> is \<open>i\<close> together with all its descendants.
\<close>

definition childRel :: "(string \<rightharpoonup> Block) \<Rightarrow> (string \<times> string) set" where
  "childRel m = {(x, c). \<exists>b. m x = Some b \<and> c \<in> set (children b)}"

definition subtreeRel :: "(string \<rightharpoonup> Block) \<Rightarrow> string \<Rightarrow> (string \<times> string) set" where
  "subtreeRel m i = {(x, c). (x, c) \<in> childRel m \<and> (i, x) \<in> (childRel m)\<^sup>*}"

definition subtreeIds :: "(string \<rightharpoonup> Block) \<Rightarrow> string \<Rightarrow> string set" where
  "subtreeIds m i = {y. (i, y) \<in> (childRel m)\<^sup>*}"

text \<open>Every child identifier is a key of the map.\<close>

definition resolves :: "(string \<rightharpoonup> Block) \<Rightarrow> bool" where
  "resolves m \<longleftrightarrow> (\<forall>x b. m x = Some b \<longrightarrow> set (children b) \<subseteq> dom m)"

text \<open>The outcome of \<^verbatim>\<open>flattenLeaves\<close> with the list replaced by its length.\<close>

definition lengthResult :: "(error + 'a list) option \<Rightarrow> (error + nat) option" where
  "lengthResult r = map_option (map_sum (\<lambda>e. e) length) r"

text \<open>A computation bounded by fuel has the value \<open>v\<close> for every large enough bound.\<close>

definition settles :: "(nat \<Rightarrow> 'a) \<Rightarrow> 'a \<Rightarrow> bool" where
  "settles f v \<longleftrightarrow> (\<exists>n. \<forall>fuel\<ge>n. f fuel = v)"

text \<open>
  The forest invariant of one axis: identifiers are unique; exactly one block is a root
  (has no parent); every other block's identifier occurs exactly once in the child sequence
  of the block its \<^verbatim>\<open>parentId\<close> names; every identifier in a child sequence is a block of
  the list whose \<^verbatim>\<open>parentId\<close> is that parent; and the child graph has no cycle.
\<close>

definition edges :: "Block list \<Rightarrow> (string \<times> string) list" where
  "edges blocks = concat (map (\<lambda>b. map (Pair (idB b)) (children b)) blocks)"

definition forest :: "Block list \<Rightarrow> bool" where
  "forest blocks \<longleftrightarrow>
     distinct (map idB blocks)
     \<and> length (filter (\<lambda>b. parentId b = None) blocks) = 1
     \<and> (\<forall>b\<in>set blocks.
           case parentId b of
             None \<Rightarrow> True
           | Some p \<Rightarrow> (\<exists>q\<in>set blocks. idB q = p \<and> count_list (children q) (idB b) = 1))
     \<and> (\<forall>q\<in>set blocks. \<forall>c\<in>set (children q).
           \<exists>b\<in>set blocks. idB b = c \<and> parentId b = Some (idB q))
     \<and> acyclic (set (edges blocks))"

definition forestInv :: "BlockState \<Rightarrow> bool" where
  "forestInv s \<longleftrightarrow> forest (rowBlocks s) \<and> forest (columnBlocks s)"

text \<open>
  The same invariant read off the lookup \<^verbatim>\<open>blocks.find(b => b.id === i)\<close>, which is how
  the proofs use it; \<open>isRoot\<close> names the blocks without a parent.
\<close>

definition forestMap :: "(string \<rightharpoonup> Block) \<Rightarrow> bool" where
  "forestMap m \<longleftrightarrow>
     (\<forall>i b p. m i = Some b \<longrightarrow> parentId b = Some p \<longrightarrow>
        (\<exists>q. m p = Some q \<and> count_list (children q) i = 1))
     \<and> (\<forall>p q c. m p = Some q \<longrightarrow> c \<in> set (children q) \<longrightarrow>
        (\<exists>b. m c = Some b \<and> parentId b = Some p))
     \<and> acyclic (childRel m)"

definition isRoot :: "Block \<Rightarrow> bool" where
  "isRoot b \<longleftrightarrow> parentId b = None"

text \<open>The identifiers of an axis in list order, and the child sequence of a block.\<close>

definition idsOf :: "Axis \<Rightarrow> BlockState \<Rightarrow> string list" where
  "idsOf axis s = map idB (axisBlocks axis s)"

definition childrenOf :: "Axis \<Rightarrow> string \<Rightarrow> BlockState \<Rightarrow> string list option" where
  "childrenOf axis i s = map_option children (findBlock (axisBlocks axis s) i)"

text \<open>
  States reached from the initial state by \<^verbatim>\<open>addBlock\<close>: a block whose identifier is the
  empty string is put under the row root, and then gets a child of its own.
\<close>

definition emptyIdBlock :: Block where
  "emptyIdBlock = \<lparr>idB = '''', label = ''E'', parentId = Some ''ROW_ROOT'', children = []\<rparr>"

definition xBlock :: Block where
  "xBlock = \<lparr>idB = ''X'', label = ''x'', parentId = Some '''', children = []\<rparr>"

definition emptyIdState :: BlockState where
  "emptyIdState = addBlock Row ''ROW_ROOT'' emptyIdBlock initialState"

section \<open>Facts about the array primitives\<close>

lemma findIndex_ge: "- 1 \<le> findIndex P xs"
  by (induction xs) (auto simp: Let_def)

lemma findIndex_neg_iff: "findIndex P xs = - 1 \<longleftrightarrow> (\<forall>x\<in>set xs. \<not> P x)"
proof (induction xs)
  case Nil
  then show ?case by simp
next
  case (Cons x xs)
  have "- 1 \<le> findIndex P xs" by (rule findIndex_ge)
  then have "findIndex P xs + 1 \<noteq> - 1" by arith
  with Cons show ?case by (auto simp: Let_def)
qed

lemma findIndex_found:
  "findIndex P xs \<noteq> - 1 \<Longrightarrow>
     0 \<le> findIndex P xs \<and> nat (findIndex P xs) < length xs \<and> P (xs ! nat (findIndex P xs))
     \<and> (\<forall>j < nat (findIndex P xs). \<not> P (xs ! j))"
proof (induction xs)
  case Nil
  then show ?case by simp
next
  case (Cons x xs)
  show ?case
  proof (cases "P x")
    case True
    then show ?thesis by simp
  next
    case False
    with Cons.prems have ne: "findIndex P xs \<noteq> - 1" by (auto simp: Let_def split: if_splits)
    from Cons.IH [OF ne] False ne show ?thesis
      by (auto simp: Let_def nat_add_distrib nth_Cons split: nat.splits)
  qed
qed

lemma indexOf_neg_iff: "indexOf xs a = - 1 \<longleftrightarrow> a \<notin> set xs"
  by (auto simp: indexOf_def findIndex_neg_iff)

lemma indexOf_found:
  "a \<in> set xs \<Longrightarrow> 0 \<le> indexOf xs a \<and> nat (indexOf xs a) < length xs \<and> xs ! nat (indexOf xs a) = a"
  using findIndex_found [of "\<lambda>x. x = a" xs] by (simp add: indexOf_def findIndex_neg_iff)

lemma findBlock_None_iff: "findBlock blocks i = None \<longleftrightarrow> i \<notin> set (map idB blocks)"
  by (auto simp: findBlock_def find_None_iff)

lemma findBlock_Some: "findBlock blocks i = Some b \<Longrightarrow> b \<in> set blocks \<and> idB b = i"
  by (auto simp: findBlock_def find_Some_iff)

lemma find_findIndex:
  "find P xs = (if findIndex P xs = - 1 then None else Some (xs ! nat (findIndex P xs)))"
proof (induction xs)
  case Nil
  then show ?case by simp
next
  case (Cons x xs)
  have "- 1 \<le> findIndex P xs" by (rule findIndex_ge)
  then have "findIndex P xs \<noteq> - 1 \<Longrightarrow> nat (findIndex P xs + 1) = Suc (nat (findIndex P xs))"
    by arith
  with Cons show ?case by (auto simp: Let_def)
qed

lemma mutateFirst_findIndex:
  "mutateFirst P f xs =
     (if findIndex P xs = - 1 then xs
      else xs[nat (findIndex P xs) := f (xs ! nat (findIndex P xs))])"
proof (induction xs)
  case Nil
  then show ?case by simp
next
  case (Cons x xs)
  have "- 1 \<le> findIndex P xs" by (rule findIndex_ge)
  then have "findIndex P xs \<noteq> - 1 \<Longrightarrow> nat (findIndex P xs + 1) = Suc (nat (findIndex P xs))"
    by arith
  with Cons show ?case by (auto simp: Let_def)
qed

lemma findBlock_findIndex:
  "findBlock blocks i = Some b \<Longrightarrow>
     findIndex (\<lambda>b. idB b = i) blocks \<noteq> - 1 \<and> b = blocks ! nat (findIndex (\<lambda>b. idB b = i) blocks)"
  by (simp add: findBlock_def find_findIndex split: if_splits)

lemma axisBlocks_setAxisBlocks: "axisBlocks axis (setAxisBlocks axis bs s) = bs"
  by (simp add: axisBlocks_def setAxisBlocks_def)

lemma otherAxis_setAxisBlocks: "axisBlocks (otherAxis axis) (setAxisBlocks axis bs s) = axisBlocks (otherAxis axis) s"
  by (simp add: axisBlocks_def setAxisBlocks_def otherAxis_def)

lemma spliceJS_delete1:
  "0 \<le> k \<Longrightarrow> nat k < length xs \<Longrightarrow> spliceJS k 1 [] xs = dropAt (nat k) xs"
  by (auto simp: spliceJS_def dropAt_def Let_def min_def max_def nat_add_distrib intro!: arg_cong2 [where f=drop])

lemma spliceJS_insert:
  "0 \<le> k \<Longrightarrow> nat k \<le> length xs \<Longrightarrow> spliceJS k 0 ys xs = take (nat k) xs @ ys @ drop (nat k) xs"
  by (auto simp: spliceJS_def Let_def min_def max_def)

lemma reorder_children:
  assumes a: "a \<in> set cs" and o: "ov \<in> set cs"
  shows "spliceJS (indexOf cs ov) 0 [a] (spliceJS (indexOf cs a) 1 [] cs) =
           take (nat (indexOf cs ov)) (dropAt (nat (indexOf cs a)) cs) @ [a]
             @ drop (nat (indexOf cs ov)) (dropAt (nat (indexOf cs a)) cs)"
proof -
  note fa = indexOf_found [OF a] and fo = indexOf_found [OF o]
  have len: "length (dropAt (nat (indexOf cs a)) cs) = length cs - 1"
    using fa by (auto simp: dropAt_def)
  have "spliceJS (indexOf cs a) 1 [] cs = dropAt (nat (indexOf cs a)) cs"
    using fa by (simp add: spliceJS_delete1)
  moreover have "nat (indexOf cs ov) \<le> length (dropAt (nat (indexOf cs a)) cs)"
    using fo len by arith
  ultimately show ?thesis using fo by (simp add: spliceJS_insert)
qed

lemma reorderBlock_found:
  assumes f: "findBlock (axisBlocks axis s) p = Some parent"
    and a: "a \<in> set (children parent)" and o: "ov \<in> set (children parent)"
  shows "reorderBlock axis p a ov s =
           setAxisBlocks axis
             ((axisBlocks axis s)
                [nat (findIndex (\<lambda>b. idB b = p) (axisBlocks axis s)) :=
                   parent\<lparr>children :=
                     take (nat (indexOf (children parent) ov))
                          (dropAt (nat (indexOf (children parent) a)) (children parent)) @ [a]
                     @ drop (nat (indexOf (children parent) ov))
                          (dropAt (nat (indexOf (children parent) a)) (children parent))\<rparr>]) s"
  using findBlock_findIndex [OF f] a o
  by (simp add: reorderBlock_def f Let_def indexOf_neg_iff mutateFirst_findIndex reorder_children)

lemma length_dropAt: "k < length xs \<Longrightarrow> length (dropAt k xs) = length xs - 1"
  by (auto simp: dropAt_def)

lemma mset_dropAt: "k < length xs \<Longrightarrow> add_mset (xs ! k) (mset (dropAt k xs)) = mset xs"
proof -
  assume k: "k < length xs"
  have "xs = take k xs @ (xs ! k) # drop (Suc k) xs"
    using k by (simp add: id_take_nth_drop)
  then have "mset xs = mset (take k xs @ (xs ! k) # drop (Suc k) xs)" by simp
  then show ?thesis by (simp add: dropAt_def)
qed

lemma mset_insertAt: "mset (insertAt k x xs) = add_mset x (mset xs)"
proof -
  have "mset (take k xs) + mset (drop k xs) = mset xs"
    by (metis append_take_drop_id mset_append)
  then show ?thesis by (simp add: insertAt_def)
qed

lemma length_insertAt: "length (insertAt k x xs) = Suc (length xs)"
  by (simp add: insertAt_def)

lemma nth_insertAt: "k \<le> length xs \<Longrightarrow> insertAt k x xs ! k = x"
  by (simp add: insertAt_def nth_append)

lemma dropAt_insertAt: "k \<le> length xs \<Longrightarrow> dropAt k (insertAt k x xs) = xs"
  by (simp add: insertAt_def dropAt_def)

lemma mset_move:
  assumes a: "a \<in> set cs"
  shows "mset (insertAt k a (dropAt (nat (indexOf cs a)) cs)) = mset cs"
  using indexOf_found [OF a] mset_dropAt [of "nat (indexOf cs a)" cs]
  by (simp add: mset_insertAt)

lemma reorderBlock_cases:
  "reorderBlock axis p a ov s = s
   \<or> (\<exists>parent. findBlock (axisBlocks axis s) p = Some parent
        \<and> a \<in> set (children parent) \<and> ov \<in> set (children parent))"
  by (auto simp: reorderBlock_def Let_def indexOf_neg_iff split: option.splits)

section \<open>Facts about the recursions over the child graph\<close>

lemma reduce_flatMap:
  assumes "\<And>c. c \<in> set cs \<Longrightarrow> g c = lengthResult (f c)"
  shows "reduceJS (\<lambda>s c. case g c of None \<Rightarrow> None | Some (Inl e) \<Rightarrow> Some (Inl e)
                              | Some (Inr k) \<Rightarrow> Some (Inr (s + k))) cs s0
         = map_option (map_sum (\<lambda>e. e) (\<lambda>ls. s0 + length ls)) (flatMapJS f cs)"
  using assms
proof (induction cs arbitrary: s0)
  case Nil
  then show ?case by simp
next
  case (Cons c cs)
  have g: "g c = lengthResult (f c)" using Cons.prems by simp
  have ih: "\<And>s0. reduceJS (\<lambda>s c. case g c of None \<Rightarrow> None | Some (Inl e) \<Rightarrow> Some (Inl e)
                              | Some (Inr k) \<Rightarrow> Some (Inr (s + k))) cs s0
         = map_option (map_sum (\<lambda>e. e) (\<lambda>ls. s0 + length ls)) (flatMapJS f cs)"
    using Cons.IH Cons.prems by simp
  show ?case
    by (simp add: g ih lengthResult_def split: option.splits sum.splits)
qed

lemma leafCount_flattenLeaves: "leafCount fuel i m = lengthResult (flattenLeaves fuel i m)"
proof (induction fuel arbitrary: i)
  case 0
  then show ?case by (simp add: lengthResult_def)
next
  case (Suc n)
  show ?case
  proof (cases "m i")
    case None
    then show ?thesis by (simp add: lengthResult_def)
  next
    case (Some b)
    have "reduceJS (\<lambda>s c. case leafCount n c m of None \<Rightarrow> None | Some (Inl e) \<Rightarrow> Some (Inl e)
                              | Some (Inr k) \<Rightarrow> Some (Inr (s + k))) (children b) 0
         = map_option (map_sum (\<lambda>e. e) (\<lambda>ls. 0 + length ls)) (flatMapJS (\<lambda>c. flattenLeaves n c m) (children b))"
      by (rule reduce_flatMap) (rule Suc.IH)
    then show ?thesis using Some by (simp add: lengthResult_def)
  qed
qed

lemma settlesI: "(\<And>fuel. n \<le> fuel \<Longrightarrow> f fuel = v) \<Longrightarrow> settles f v"
  by (auto simp: settles_def)

lemma settles_unique: "settles f v \<Longrightarrow> settles f w \<Longrightarrow> v = w"
  unfolding settles_def by (metis nat_le_linear)

lemma childRel_finite: "finite (dom m) \<Longrightarrow> finite (childRel m)"
proof -
  assume f: "finite (dom m)"
  have "childRel m \<subseteq> (\<Union>x\<in>dom m. {x} \<times> set (children (the (m x))))"
    by (auto simp: childRel_def)
  moreover have "finite (\<Union>x\<in>dom m. {x} \<times> set (children (the (m x))))"
    using f by simp
  ultimately show ?thesis by (rule finite_subset)
qed

lemma subtreeRel_subset: "subtreeRel m i \<subseteq> childRel m"
  by (auto simp: subtreeRel_def)

lemma subtree_induct [consumes 3, case_names step]:
  assumes fin: "finite (dom m)" and acyc: "acyclic (subtreeRel m i)"
    and reach: "(i, x) \<in> (childRel m)\<^sup>*"
    and step: "\<And>x. (i, x) \<in> (childRel m)\<^sup>* \<Longrightarrow>
               (\<And>c. (x, c) \<in> childRel m \<Longrightarrow> P c) \<Longrightarrow> P x"
  shows "P x"
proof -
  have "finite (subtreeRel m i)"
    using childRel_finite [OF fin] subtreeRel_subset by (rule rev_finite_subset)
  then have wf: "wf ((subtreeRel m i)\<inverse>)"
    using acyc by (rule finite_acyclic_wf_converse)
  from wf have "(i, x) \<in> (childRel m)\<^sup>* \<longrightarrow> P x"
  proof (induction x rule: wf_induct_rule)
    case (less x)
    show ?case
    proof
      assume r: "(i, x) \<in> (childRel m)\<^sup>*"
      show "P x"
      proof (rule step [OF r])
        fix c assume e: "(x, c) \<in> childRel m"
        then have "(c, x) \<in> (subtreeRel m i)\<inverse>" using r by (simp add: subtreeRel_def)
        moreover have "(i, c) \<in> (childRel m)\<^sup>*" using r e by (rule rtrancl_into_rtrancl)
        ultimately show "P c" using less by blast
      qed
    qed
  qed
  then show ?thesis using reach by blast
qed

lemma flatMapJS_settles:
  assumes "\<And>c. c \<in> set cs \<Longrightarrow> \<exists>ls. settles (\<lambda>fuel. F fuel c) (Some (Inr ls))"
  shows "\<exists>ls. settles (\<lambda>fuel. flatMapJS (F fuel) cs) (Some (Inr ls))"
  using assms
proof (induction cs)
  case Nil
  show ?case by (auto simp: settles_def)
next
  case (Cons c cs)
  from Cons.prems obtain ys n1 where n1: "\<And>fuel. n1 \<le> fuel \<Longrightarrow> F fuel c = Some (Inr ys)"
    unfolding settles_def by (meson list.set_intros(1))
  from Cons.IH Cons.prems obtain zs n2
    where n2: "\<And>fuel. n2 \<le> fuel \<Longrightarrow> flatMapJS (F fuel) cs = Some (Inr zs)"
    unfolding settles_def by (meson list.set_intros(2))
  have "settles (\<lambda>fuel. flatMapJS (F fuel) (c # cs)) (Some (Inr (ys @ zs)))"
  proof (rule settlesI)
    fix fuel assume "max n1 n2 \<le> fuel"
    then show "flatMapJS (F fuel) (c # cs) = Some (Inr (ys @ zs))"
      by (simp add: n1 n2)
  qed
  then show ?case by blast
qed

lemma flattenLeaves_settles:
  assumes fin: "finite (dom m)" and res: "resolves m" and acyc: "acyclic (subtreeRel m i)"
    and dom: "i \<in> dom m"
  shows "\<exists>ls. settles (\<lambda>fuel. flattenLeaves fuel i m) (Some (Inr ls))"
proof -
  have "(i, i) \<in> (childRel m)\<^sup>*" by simp
  with fin acyc have "i \<in> dom m \<longrightarrow> (\<exists>ls. settles (\<lambda>fuel. flattenLeaves fuel i m) (Some (Inr ls)))"
  proof (induction rule: subtree_induct)
    case (step x)
    show ?case
    proof
      assume "x \<in> dom m"
      then obtain b where b: "m x = Some b" by blast
      have kids: "\<exists>ls. settles (\<lambda>fuel. flattenLeaves fuel c m) (Some (Inr ls))"
        if "c \<in> set (children b)" for c
      proof -
        have "(x, c) \<in> childRel m" using b that by (auto simp: childRel_def)
        moreover have "c \<in> dom m" using res b that by (auto simp: resolves_def)
        ultimately show ?thesis using step.IH by blast
      qed
      from flatMapJS_settles [of "children b" "\<lambda>fuel c. flattenLeaves fuel c m", OF kids]
      obtain ls n where n: "\<And>fuel. n \<le> fuel \<Longrightarrow>
          flatMapJS (\<lambda>c. flattenLeaves fuel c m) (children b) = Some (Inr ls)"
        unfolding settles_def by blast
      have "settles (\<lambda>fuel. flattenLeaves fuel x m)
              (Some (Inr (if length (children b) = 0 then [x] else ls)))"
      proof (rule settlesI)
        fix fuel assume "Suc n \<le> fuel"
        then obtain k where k: "fuel = Suc k" "n \<le> k" by (cases fuel) auto
        show "flattenLeaves fuel x m = Some (Inr (if length (children b) = 0 then [x] else ls))"
          using n [OF k(2)] by (simp add: k(1) b)
      qed
      then show "\<exists>ls. settles (\<lambda>fuel. flattenLeaves fuel x m) (Some (Inr ls))" by blast
    qed
  qed
  with dom show ?thesis by blast
qed

lemma missing_settles:
  "i \<notin> dom m \<Longrightarrow> settles (\<lambda>fuel. flattenLeaves fuel i m) (Some (Inl TypeError))"
proof (rule settlesI)
  fix fuel assume "i \<notin> dom m" "Suc 0 \<le> fuel"
  then show "flattenLeaves fuel i m = Some (Inl TypeError)"
    by (cases fuel) (auto simp: domIff)
qed

lemma subtreeIds_unfold:
  "subtreeIds m x = insert x (\<Union>c\<in>{c. (x, c) \<in> childRel m}. subtreeIds m c)"
proof (intro set_eqI iffI)
  fix y assume "y \<in> subtreeIds m x"
  then have "(x, y) \<in> (childRel m)\<^sup>*" by (simp add: subtreeIds_def)
  then show "y \<in> insert x (\<Union>c\<in>{c. (x, c) \<in> childRel m}. subtreeIds m c)"
  proof (cases rule: converse_rtranclE)
    case base
    then show ?thesis by simp
  next
    case (step c)
    then have "c \<in> {c. (x, c) \<in> childRel m}" "y \<in> subtreeIds m c"
      by (simp_all add: subtreeIds_def)
    then show ?thesis by blast
  qed
next
  fix y assume "y \<in> insert x (\<Union>c\<in>{c. (x, c) \<in> childRel m}. subtreeIds m c)"
  then consider "y = x" | c where "(x, c) \<in> childRel m" "(c, y) \<in> (childRel m)\<^sup>*"
    by (auto simp: subtreeIds_def)
  then show "y \<in> subtreeIds m x"
  proof cases
    case 1
    then show ?thesis by (simp add: subtreeIds_def)
  next
    case 2
    then have "(x, y) \<in> (childRel m)\<^sup>*" by (rule converse_rtrancl_into_rtrancl)
    then show ?thesis by (simp add: subtreeIds_def)
  qed
qed

lemma childRel_children: "m x = Some b \<Longrightarrow> {c. (x, c) \<in> childRel m} = set (children b)"
  by (auto simp: childRel_def)

lemma childRel_none: "m x = None \<Longrightarrow> {c. (x, c) \<in> childRel m} = {}"
  by (auto simp: childRel_def)

lemma forEach_settles:
  assumes "\<And>c. c \<in> set cs \<Longrightarrow> \<exists>n::nat. \<forall>fuel\<ge>n. \<forall>acc. F fuel c acc = Some (acc \<union> S c)"
  shows "\<exists>n. \<forall>fuel\<ge>n. \<forall>acc. forEach (F fuel) cs acc = Some (acc \<union> (\<Union>c\<in>set cs. S c))"
  using assms
proof (induction cs)
  case Nil
  show ?case by simp
next
  case (Cons c cs)
  from Cons.prems obtain n1 where n1: "\<And>fuel acc. n1 \<le> fuel \<Longrightarrow> F fuel c acc = Some (acc \<union> S c)"
    by (meson list.set_intros(1))
  from Cons.IH Cons.prems obtain n2
    where n2: "\<And>fuel acc. n2 \<le> fuel \<Longrightarrow> forEach (F fuel) cs acc = Some (acc \<union> (\<Union>c\<in>set cs. S c))"
    by (meson list.set_intros(2))
  have "forEach (F fuel) (c # cs) acc = Some (acc \<union> (\<Union>c\<in>set (c # cs). S c))"
    if "max n1 n2 \<le> fuel" for fuel acc
  proof -
    from that have "n1 \<le> fuel" "n2 \<le> fuel" by simp_all
    then show ?thesis by (simp add: n1 n2 Un_assoc)
  qed
  then show ?case by blast
qed

lemma dfs_settles:
  assumes acyc: "acyclic (subtreeRel (findBlock blocks) i)"
  shows "\<exists>n. \<forall>fuel\<ge>n. \<forall>acc. dfs fuel blocks i acc = Some (acc \<union> subtreeIds (findBlock blocks) i)"
proof -
  have fin: "finite (dom (findBlock blocks))"
  proof (rule finite_subset)
    show "dom (findBlock blocks) \<subseteq> set (map idB blocks)"
    proof
      fix x assume "x \<in> dom (findBlock blocks)"
      then have "findBlock blocks x \<noteq> None" by (simp add: domIff)
      then show "x \<in> set (map idB blocks)" by (simp only: findBlock_None_iff not_not)
    qed
  qed simp
  have "(i, i) \<in> (childRel (findBlock blocks))\<^sup>*" by simp
  with fin acyc show ?thesis
  proof (induction rule: subtree_induct)
    case (step x)
    show ?case
    proof (cases "findBlock blocks x")
      case None
      have "subtreeIds (findBlock blocks) x = {x}"
        by (subst subtreeIds_unfold) (simp add: childRel_none [of "findBlock blocks" x, OF None])
      then have "dfs fuel blocks x acc = Some (acc \<union> subtreeIds (findBlock blocks) x)"
        if "Suc 0 \<le> fuel" for fuel acc
        using that None by (cases fuel) auto
      then show ?thesis by blast
    next
      case (Some b)
      have kids: "\<exists>n. \<forall>fuel\<ge>n. \<forall>acc. dfs fuel blocks c acc = Some (acc \<union> subtreeIds (findBlock blocks) c)"
        if "c \<in> set (children b)" for c
      proof (rule step.IH)
        show "(x, c) \<in> childRel (findBlock blocks)"
          using that Some by (auto simp: childRel_def)
      qed
      from forEach_settles [of "children b" "\<lambda>fuel. dfs fuel blocks" "subtreeIds (findBlock blocks)", OF kids]
      obtain n where n: "\<And>fuel acc. n \<le> fuel \<Longrightarrow>
          forEach (dfs fuel blocks) (children b) acc
            = Some (acc \<union> (\<Union>c\<in>set (children b). subtreeIds (findBlock blocks) c))"
        by blast
      have u: "subtreeIds (findBlock blocks) x
                 = insert x (\<Union>c\<in>set (children b). subtreeIds (findBlock blocks) c)"
        by (subst subtreeIds_unfold) (simp add: childRel_children [of "findBlock blocks" x b, OF Some])
      have "dfs fuel blocks x acc = Some (acc \<union> subtreeIds (findBlock blocks) x)"
        if "Suc n \<le> fuel" for fuel acc
      proof -
        from that obtain k where k: "fuel = Suc k" "n \<le> k" by (cases fuel) auto
        show ?thesis using n [OF k(2)] by (simp add: k(1) Some u)
      qed
      then show ?thesis by blast
    qed
  qed
qed

lemma acyclic_subtreeRel: "acyclic (childRel m) \<Longrightarrow> acyclic (subtreeRel m i)"
  by (erule acyclic_subset) (rule subtreeRel_subset)

lemma set_edges: "set (edges blocks) = {(idB b, c) | b c. b \<in> set blocks \<and> c \<in> set (children b)}"
  by (auto simp: edges_def)

lemma findBlock_distinct:
  "distinct (map idB blocks) \<Longrightarrow> b \<in> set blocks \<Longrightarrow> findBlock blocks (idB b) = Some b"
proof (induction blocks)
  case Nil
  then show ?case by simp
next
  case (Cons x xs)
  then show ?case by (auto simp: findBlock_def)
qed

lemma findBlock_Some_iff:
  "distinct (map idB blocks) \<Longrightarrow> findBlock blocks i = Some b \<longleftrightarrow> b \<in> set blocks \<and> idB b = i"
  using findBlock_distinct findBlock_Some by blast

lemma childRel_findBlock:
  "distinct (map idB blocks) \<Longrightarrow> childRel (findBlock blocks) = set (edges blocks)"
  by (auto simp: childRel_def set_edges findBlock_Some_iff)

lemma dom_findBlock: "dom (findBlock blocks) = set (map idB blocks)"
proof -
  have "x \<in> dom (findBlock blocks) \<longleftrightarrow> x \<in> set (map idB blocks)" for x
    using findBlock_None_iff [of blocks x] by (simp only: domIff) blast
  then show ?thesis by blast
qed

lemma find_append:
  "find P (xs @ ys) = (case find P xs of None \<Rightarrow> find P ys | Some x \<Rightarrow> Some x)"
  by (induction xs) auto

lemma buildMap_snoc: "buildMap (xs @ [b]) = (buildMap xs)(idB b \<mapsto> b)"
  by (simp add: buildMap_def)

lemma buildMap_findBlock:
  "distinct (map idB blocks) \<Longrightarrow> buildMap blocks = findBlock blocks"
proof (induction blocks rule: rev_induct)
  case Nil
  show ?case by (auto simp: buildMap_def findBlock_def)
next
  case (snoc b xs)
  then have ih: "buildMap xs = findBlock xs" and nb: "idB b \<notin> set (map idB xs)" by simp_all
  have "findBlock (xs @ [b]) i = ((findBlock xs)(idB b \<mapsto> b)) i" for i
  proof (cases "findBlock xs i")
    case None
    then show ?thesis by (auto simp: findBlock_def find_append)
  next
    case (Some c)
    from findBlock_Some [OF Some] have "i \<in> set (map idB xs)" by auto
    then have "i \<noteq> idB b" using nb by blast
    then show ?thesis using Some by (auto simp: findBlock_def find_append)
  qed
  then show ?case by (auto simp: buildMap_snoc ih)
qed

lemma forest_resolves: "forest blocks \<Longrightarrow> resolves (findBlock blocks)"
  unfolding resolves_def
proof (intro allI impI subsetI)
  fix x b c
  assume f: "forest blocks" and s: "findBlock blocks x = Some b" and c: "c \<in> set (children b)"
  from findBlock_Some [OF s] have "b \<in> set blocks" by simp
  with f c obtain b' where "b' \<in> set blocks" "idB b' = c" unfolding forest_def by blast
  then have "c \<in> set (map idB blocks)" by auto
  then show "c \<in> dom (findBlock blocks)" by (simp only: dom_findBlock)
qed

lemma forest_acyclic: "forest blocks \<Longrightarrow> acyclic (childRel (findBlock blocks))"
  by (simp add: forest_def childRel_findBlock)

lemma forest_distinct: "forest blocks \<Longrightarrow> distinct (map idB blocks)"
  by (simp add: forest_def)

section \<open>Facts about the page's reordering\<close>

lemma spliceRemoved_1:
  "0 \<le> k \<Longrightarrow> nat k < length xs \<Longrightarrow> spliceRemoved k 1 xs = [xs ! nat k]"
proof -
  assume k: "0 \<le> k" "nat k < length xs"
  then have "take 1 (drop (nat k) xs) = [xs ! nat k]"
    by (simp add: Cons_nth_drop_Suc [symmetric])
  moreover have "k < int (length xs)" using k by arith
  ultimately show ?thesis using k by (simp add: spliceRemoved_def Let_def min_def max_def)
qed

lemma arrayMove_found:
  assumes a: "a \<in> set cs" and o: "ov \<in> set cs"
  shows "arrayMove cs (indexOf cs a) (indexOf cs ov)
           = Inr (insertAt (nat (indexOf cs ov)) a (dropAt (nat (indexOf cs a)) cs))"
proof -
  note fa = indexOf_found [OF a] and fo = indexOf_found [OF o]
  have r: "spliceRemoved (indexOf cs a) 1 cs = [a]" using fa by (simp add: spliceRemoved_1)
  have "spliceJS (indexOf cs ov) 0 [a] (spliceJS (indexOf cs a) 1 [] cs)
          = insertAt (nat (indexOf cs ov)) a (dropAt (nat (indexOf cs a)) cs)"
    using reorder_children [OF a o] by (simp add: insertAt_def)
  then show ?thesis using fo r by (simp add: arrayMove_def Let_def)
qed

lemma map_mutateFirst:
  "distinct (map idB blocks) \<Longrightarrow>
     map (\<lambda>bl. if idB bl = i then f bl else bl) blocks = mutateFirst (\<lambda>b. idB b = i) f blocks"
proof (induction blocks)
  case Nil
  show ?case by simp
next
  case (Cons x xs)
  show ?case
  proof (cases "idB x = i")
    case True
    with Cons.prems have "i \<notin> idB ` set xs" by simp
    then have "\<forall>y\<in>set xs. idB y \<noteq> i" by blast
    then have "map (\<lambda>bl. if idB bl = i then f bl else bl) xs = xs"
      by (simp add: map_idI)
    with True show ?thesis by simp
  next
    case False
    with Cons show ?thesis by simp
  qed
qed

lemma forest_child:
  "forest blocks \<Longrightarrow> q \<in> set blocks \<Longrightarrow> c \<in> set (children q) \<Longrightarrow>
     \<exists>b. findBlock blocks c = Some b \<and> idB b = c \<and> parentId b = Some (idB q)"
proof -
  assume f: "forest blocks" and q: "q \<in> set blocks" and c: "c \<in> set (children q)"
  then obtain b where b: "b \<in> set blocks" "idB b = c" "parentId b = Some (idB q)"
    unfolding forest_def by blast
  from findBlock_distinct [OF forest_distinct [OF f] b(1)] b show ?thesis by auto
qed

lemma map_idB_update:
  "k < length blocks \<Longrightarrow> idB b' = idB (blocks ! k) \<Longrightarrow> map idB (blocks[k := b']) = map idB blocks"
  by (rule nth_equalityI) (auto simp: nth_list_update)

section \<open>The forest invariant under the store's actions\<close>

lemma forest_iff:
  "forest blocks \<longleftrightarrow>
     distinct (map idB blocks) \<and> length (filter isRoot blocks) = 1
     \<and> forestMap (findBlock blocks)"
proof (cases "distinct (map idB blocks)")
  case False
  then show ?thesis by (simp add: forest_def)
next
  case d: True
  note s = findBlock_Some_iff [OF d]
  have p: "(\<forall>b\<in>set blocks. case parentId b of None \<Rightarrow> True
              | Some p \<Rightarrow> (\<exists>q\<in>set blocks. idB q = p \<and> count_list (children q) (idB b) = 1))
           \<longleftrightarrow> (\<forall>i b p. findBlock blocks i = Some b \<longrightarrow> parentId b = Some p \<longrightarrow>
                  (\<exists>q. findBlock blocks p = Some q \<and> count_list (children q) i = 1))"
    by (auto simp: s split: option.splits)
  have c: "(\<forall>q\<in>set blocks. \<forall>c\<in>set (children q).
             \<exists>b\<in>set blocks. idB b = c \<and> parentId b = Some (idB q))
           \<longleftrightarrow> (\<forall>p q c. findBlock blocks p = Some q \<longrightarrow> c \<in> set (children q) \<longrightarrow>
                  (\<exists>b. findBlock blocks c = Some b \<and> parentId b = Some p))"
    by (auto simp: s)
  show ?thesis
    unfolding forest_def forestMap_def p c childRel_findBlock [OF d] isRoot_def
    using d by blast
qed

lemma findBlock_update:
  assumes d: "distinct (map idB blocks)" and k: "k < length blocks"
    and i: "idB b' = idB (blocks ! k)"
  shows "findBlock (blocks[k := b']) = (findBlock blocks)(idB b' \<mapsto> b')"
proof
  fix j
  have d': "distinct (map idB (blocks[k := b']))" using d k i by (simp add: map_idB_update)
  have mem: "b' \<in> set (blocks[k := b'])" using k by (rule set_update_memI)
  show "findBlock (blocks[k := b']) j = ((findBlock blocks)(idB b' \<mapsto> b')) j"
  proof (cases "j = idB b'")
    case True
    then show ?thesis using findBlock_distinct [OF d' mem] by simp
  next
    case False
    have "findBlock (blocks[k := b']) j = Some b \<longleftrightarrow> findBlock blocks j = Some b" for b
    proof -
      have "b \<in> set (blocks[k := b']) \<and> idB b = j \<longleftrightarrow> b \<in> set blocks \<and> idB b = j"
      proof (cases "idB b = j")
        case True
        with False i have ne: "b \<noteq> b'" "b \<noteq> blocks ! k" by auto
        have "b \<in> set (blocks[k := b']) \<longleftrightarrow> b \<in> set blocks"
          using ne k by (auto simp: in_set_conv_nth nth_list_update)
        then show ?thesis by simp
      next
        case False
        then show ?thesis by simp
      qed
      then show ?thesis by (simp add: findBlock_Some_iff [OF d] findBlock_Some_iff [OF d'])
    qed
    then have e: "\<And>b. findBlock (blocks[k := b']) j = Some b \<longleftrightarrow> findBlock blocks j = Some b" .
    have "findBlock (blocks[k := b']) j = findBlock blocks j"
    proof (cases "findBlock blocks j")
      case None
      then have "findBlock (blocks[k := b']) j \<noteq> Some b" for b by (simp add: e)
      then have "findBlock (blocks[k := b']) j = None" by (simp only: not_Some_eq [symmetric]) blast
      with None show ?thesis by simp
    next
      case (Some b)
      then show ?thesis by (simp add: e)
    qed
    with False show ?thesis by simp
  qed
qed

lemma findBlock_snoc:
  "idB b \<notin> set (map idB blocks) \<Longrightarrow> findBlock (blocks @ [b]) = (findBlock blocks)(idB b \<mapsto> b)"
proof
  fix i assume nb: "idB b \<notin> set (map idB blocks)"
  show "findBlock (blocks @ [b]) i = ((findBlock blocks)(idB b \<mapsto> b)) i"
  proof (cases "findBlock blocks i")
    case None
    then show ?thesis by (auto simp: findBlock_def find_append)
  next
    case (Some c)
    from findBlock_Some [OF Some] have "i \<in> set (map idB blocks)" by auto
    then have "i \<noteq> idB b" using nb by blast
    then show ?thesis using Some by (auto simp: findBlock_def find_append)
  qed
qed

lemma find_filter: "find P (filter Q xs) = find (\<lambda>x. P x \<and> Q x) xs"
  by (induction xs) auto

lemma findBlock_filter:
  "findBlock (filter (\<lambda>b. idB b \<notin> D) blocks) = (\<lambda>i. if i \<in> D then None else findBlock blocks i)"
proof
  fix i
  show "findBlock (filter (\<lambda>b. idB b \<notin> D) blocks) i = (if i \<in> D then None else findBlock blocks i)"
  proof (cases "i \<in> D")
    case True
    then show ?thesis by (auto simp: findBlock_def find_filter find_None_iff)
  next
    case False
    then have e: "(\<lambda>x. idB x = i \<and> idB x \<notin> D) = (\<lambda>x. idB x = i)" by auto
    have "find (\<lambda>x. idB x = i \<and> idB x \<notin> D) blocks = find (\<lambda>x. idB x = i) blocks"
      by (rule arg_cong [OF e, of "\<lambda>P. find P blocks"])
    with False show ?thesis by (simp add: findBlock_def find_filter)
  qed
qed

lemma roots_parentIds:
  "length (filter isRoot xs) = length (filter (\<lambda>p. p = None) (map parentId xs))"
  by (induction xs) (auto simp: isRoot_def)

lemma roots_update:
  "k < length blocks \<Longrightarrow> parentId b' = parentId (blocks ! k) \<Longrightarrow>
     length (filter isRoot (blocks[k := b'])) = length (filter isRoot blocks)"
proof -
  assume k: "k < length blocks" and p: "parentId b' = parentId (blocks ! k)"
  have "map parentId (blocks[k := b']) = map parentId blocks"
    using k p by (intro nth_equalityI) (auto simp: nth_list_update)
  then show ?thesis by (simp only: roots_parentIds)
qed

lemma count_list_mset: "mset xs = mset ys \<Longrightarrow> count_list xs x = count_list ys x"
  by (metis count_mset)

lemma childRel_upd_same:
  assumes "m p = Some q" and "set (children q') = set (children q)"
  shows "childRel (m(p \<mapsto> q')) = childRel m"
  using assms by (auto simp: childRel_def split: if_splits)

lemma forestMap_perm:
  assumes f: "forestMap m" and q: "m p = Some q"
    and par: "parentId q' = parentId q" and ms: "mset (children q') = mset (children q)"
  shows "forestMap (m(p \<mapsto> q'))"
proof -
  have st: "set (children q') = set (children q)" using ms by (rule mset_eq_setD)
  have cnt: "count_list (children q') x = count_list (children q) x" for x
    using ms by (rule count_list_mset)
  from f have P: "\<And>i b pp. m i = Some b \<Longrightarrow> parentId b = Some pp \<Longrightarrow>
        \<exists>qq. m pp = Some qq \<and> count_list (children qq) i = 1"
    and C: "\<And>pp qq c. m pp = Some qq \<Longrightarrow> c \<in> set (children qq) \<Longrightarrow>
        \<exists>b. m c = Some b \<and> parentId b = Some pp"
    and A: "acyclic (childRel m)"
    unfolding forestMap_def by blast+
  have same: "\<exists>b'. (m(p \<mapsto> q')) i = Some b' \<and> parentId b' = parentId b
                 \<and> (\<forall>x. count_list (children b') x = count_list (children b) x)"
    if "m i = Some b" for i b
    using that q par cnt by (cases "i = p") auto
  have orig: "\<exists>b. m i = Some b \<and> parentId b' = parentId b
                 \<and> set (children b') = set (children b)"
    if "(m(p \<mapsto> q')) i = Some b'" for i b'
    using that q par st by (cases "i = p") auto
  show ?thesis
    unfolding forestMap_def
  proof (intro conjI allI impI)
    fix i b pp assume a: "(m(p \<mapsto> q')) i = Some b" "parentId b = Some pp"
    from orig [OF a(1)] obtain b0 where b0: "m i = Some b0" "parentId b = parentId b0" by blast
    from P [OF b0(1)] a(2) b0(2) obtain qq
      where qq: "m pp = Some qq" "count_list (children qq) i = 1" by auto
    from same [OF qq(1)] qq(2)
    show "\<exists>q. (m(p \<mapsto> q')) pp = Some q \<and> count_list (children q) i = 1" by auto
  next
    fix pp qq c assume a: "(m(p \<mapsto> q')) pp = Some qq" "c \<in> set (children qq)"
    from orig [OF a(1)] a(2) obtain q0 where q0: "m pp = Some q0" "c \<in> set (children q0)" by blast
    from C [OF q0] obtain b where b: "m c = Some b" "parentId b = Some pp" by blast
    from same [OF b(1)] b(2)
    show "\<exists>b. (m(p \<mapsto> q')) c = Some b \<and> parentId b = Some pp" by auto
  next
    show "acyclic (childRel (m(p \<mapsto> q')))"
      using A by (simp add: childRel_upd_same [of m p q q', OF q st])
  qed
qed

lemma childRel_add:
  assumes q: "m p = Some q" and n: "m n = None" and ch: "children nb = []"
  shows "childRel (m(p \<mapsto> q\<lparr>children := children q @ [n]\<rparr>, n \<mapsto> nb))
           = insert (p, n) (childRel m)"
  using assms by (auto simp: childRel_def split: if_splits)

lemma childRel_source: "(x, y) \<in> (childRel m)\<^sup>* \<Longrightarrow> m x = None \<Longrightarrow> y = x"
  by (erule converse_rtranclE) (auto simp: childRel_def)

lemma forestMap_add:
  assumes f: "forestMap m" and q: "m p = Some q" and n: "m n = None"
    and par: "parentId nb = Some p" and ch: "children nb = []"
  shows "forestMap (m(p \<mapsto> q\<lparr>children := children q @ [n]\<rparr>, n \<mapsto> nb))"
proof -
  define q' where "q' = q\<lparr>children := children q @ [n]\<rparr>"
  define m' where "m' = m(p \<mapsto> q', n \<mapsto> nb)"
  from f have P: "\<And>i b pp. m i = Some b \<Longrightarrow> parentId b = Some pp \<Longrightarrow>
        \<exists>qq. m pp = Some qq \<and> count_list (children qq) i = 1"
    and C: "\<And>pp qq c. m pp = Some qq \<Longrightarrow> c \<in> set (children qq) \<Longrightarrow>
        \<exists>b. m c = Some b \<and> parentId b = Some pp"
    and A: "acyclic (childRel m)"
    unfolding forestMap_def by blast+
  have np: "n \<noteq> p" using q n by auto
  have nq: "n \<notin> set (children q)" using C [OF q] n by fastforce
  have same: "\<exists>b'. m' i = Some b' \<and> parentId b' = parentId b
                 \<and> (\<forall>x. x \<noteq> n \<longrightarrow> count_list (children b') x = count_list (children b) x)
                 \<and> set (children b) \<subseteq> set (children b')"
    if "m i = Some b" for i b
    using that q n np by (cases "i = p") (auto simp: m'_def q'_def)
  have m'n: "m' n = Some nb" by (simp add: m'_def)
  have m'p: "m' p = Some q'" using np by (simp add: m'_def)
  have old: "\<exists>b0. m i = Some b0 \<and> parentId b = parentId b0
               \<and> set (children b) \<subseteq> insert n (set (children b0))
               \<and> (n \<in> set (children b) \<longrightarrow> i = p)"
    if "m' i = Some b" "i \<noteq> n" for i b
    using that q nq C n by (cases "i = p") (fastforce simp: m'_def q'_def)+
  show ?thesis
    unfolding forestMap_def m'_def [symmetric] q'_def [symmetric]
  proof (intro conjI allI impI)
    fix i b pp assume a: "m' i = Some b" "parentId b = Some pp"
    show "\<exists>q. m' pp = Some q \<and> count_list (children q) i = 1"
    proof (cases "i = n")
      case True
      then have "b = nb" using a(1) m'n by simp
      then have "pp = p" using a(2) par by simp
      moreover have "count_list (children q') n = 1" using nq by (simp add: q'_def count_list_0_iff)
      ultimately show ?thesis using m'p True by simp
    next
      case False
      from old [OF a(1) False] obtain b0 where b0: "m i = Some b0" "parentId b = parentId b0" by blast
      from P [OF b0(1)] a(2) b0(2) obtain qq
        where qq: "m pp = Some qq" "count_list (children qq) i = 1" by auto
      from same [OF qq(1)] qq(2) False show ?thesis by auto
    qed
  next
    fix pp qq c assume a: "m' pp = Some qq" "c \<in> set (children qq)"
    have ppn: "pp \<noteq> n" using a m'n ch by auto
    from old [OF a(1) ppn] obtain q0 where q0: "m pp = Some q0"
      "set (children qq) \<subseteq> insert n (set (children q0))" "n \<in> set (children qq) \<longrightarrow> pp = p"
      by blast
    show "\<exists>b. m' c = Some b \<and> parentId b = Some pp"
    proof (cases "c = n")
      case True
      with q0(3) a(2) have "pp = p" by simp
      with True m'n par show ?thesis by simp
    next
      case False
      with q0(2) a(2) have "c \<in> set (children q0)" by auto
      from C [OF q0(1) this] obtain b where b: "m c = Some b" "parentId b = Some pp" by blast
      from same [OF b(1)] b(2) show ?thesis by auto
    qed
  next
    have "(n, p) \<notin> (childRel m)\<^sup>*"
      using childRel_source [of n p m] n np by blast
    then show "acyclic (childRel m')"
      using A by (simp add: m'_def q'_def childRel_add [of m p q n nb, OF q n ch])
  qed
qed

lemma forestMap_remove:
  assumes f: "forestMap m" and bi: "m i = Some b" and par: "parentId b = Some pid"
    and q: "m pid = Some q"
    and pq1: "parentId q1 = parentId q"
    and st: "set (children q1) = set (children q) - {i}"
    and cnt: "\<And>x. x \<noteq> i \<Longrightarrow> count_list (children q1) x = count_list (children q) x"
  defines "m1 \<equiv> m(pid \<mapsto> q1)"
  defines "D1 \<equiv> subtreeIds m1 i"
  shows "forestMap (\<lambda>j. if j \<in> D1 then None else m1 j)"
    and "\<And>j x. j \<in> D1 \<Longrightarrow> m1 j = Some x \<Longrightarrow> parentId x \<noteq> None"
    and "acyclic (childRel m1)"
proof -
  define m' where "m' = (\<lambda>j. if j \<in> D1 then None else m1 j)"
  from f have P: "\<And>i b pp. m i = Some b \<Longrightarrow> parentId b = Some pp \<Longrightarrow>
        \<exists>qq. m pp = Some qq \<and> count_list (children qq) i = 1"
    and C: "\<And>pp qq c. m pp = Some qq \<Longrightarrow> c \<in> set (children qq) \<Longrightarrow>
        \<exists>b. m c = Some b \<and> parentId b = Some pp"
    and A: "acyclic (childRel m)"
    unfolding forestMap_def by blast+
  have m1_old: "\<exists>x0. m j = Some x0 \<and> parentId x = parentId x0
                  \<and> set (children x) \<subseteq> set (children x0)
                  \<and> (j = pid \<longrightarrow> i \<notin> set (children x))"
    if "m1 j = Some x" for j x
    using that q pq1 st by (cases "j = pid") (auto simp: m1_def)
  have m1_new: "\<exists>x. m1 j = Some x \<and> parentId x = parentId x0
                  \<and> (\<forall>y. y \<noteq> i \<longrightarrow> count_list (children x) y = count_list (children x0) y)"
    if "m j = Some x0" for j x0
    using that q pq1 cnt by (cases "j = pid") (auto simp: m1_def)
  have sub: "childRel m1 \<subseteq> childRel m"
  proof
    fix e assume "e \<in> childRel m1"
    then obtain x c y where e: "e = (x, c)" "m1 x = Some y" "c \<in> set (children y)"
      by (auto simp: childRel_def)
    from m1_old [OF e(2)] e(3) show "e \<in> childRel m" by (auto simp: childRel_def e(1))
  qed
  show A1: "acyclic (childRel m1)" using A sub by (rule acyclic_subset)
  have uniq: "x = z" if "(x, y) \<in> childRel m" "(z, y) \<in> childRel m" for x y z
  proof -
    from that obtain qx qz where "m x = Some qx" "y \<in> set (children qx)"
      "m z = Some qz" "y \<in> set (children qz)" by (auto simp: childRel_def)
    from C [OF this(1,2)] C [OF this(3,4)] show ?thesis by auto
  qed
  have into_i: "(x, i) \<notin> childRel m1" for x
  proof
    assume e: "(x, i) \<in> childRel m1"
    then obtain y where y: "m1 x = Some y" "i \<in> set (children y)" by (auto simp: childRel_def)
    from e sub have "(x, i) \<in> childRel m" by blast
    moreover have "(pid, i) \<in> childRel m"
    proof -
      from P [OF bi par] q have "count_list (children q) i = 1" by simp
      then have "i \<in> set (children q)" by (metis count_list_0_iff zero_neq_one)
      with q show ?thesis by (auto simp: childRel_def)
    qed
    ultimately have "x = pid" by (rule uniq)
    with m1_old [OF y(1)] y(2) show False by simp
  qed
  have iD: "i \<in> D1" by (simp add: D1_def subtreeIds_def)
  have down: "y \<in> D1" if "(x, y) \<in> childRel m1" "x \<in> D1" for x y
    using that unfolding D1_def subtreeIds_def by (auto intro: rtrancl_into_rtrancl)
  have up: "x \<in> D1" if e: "(x, y) \<in> childRel m1" and y: "y \<in> D1" for x y
  proof -
    from y have "(i, y) \<in> (childRel m1)\<^sup>*" by (simp add: D1_def subtreeIds_def)
    then show ?thesis
    proof (cases rule: rtranclE)
      case base
      with e into_i show ?thesis by simp
    next
      case (step z)
      from step(2) e sub have "z = x" by (blast intro: uniq)
      with step(1) show ?thesis by (simp add: D1_def subtreeIds_def)
    qed
  qed
  show nonroot: "parentId x \<noteq> None" if j: "j \<in> D1" and x: "m1 j = Some x" for j x
  proof (cases "j = i")
    case True
    from m1_old [OF x] bi par True show ?thesis by auto
  next
    case False
    from j have "(i, j) \<in> (childRel m1)\<^sup>*" by (simp add: D1_def subtreeIds_def)
    then obtain z where "(z, j) \<in> childRel m1" using False by (cases rule: rtranclE) auto
    with sub have "(z, j) \<in> childRel m" by blast
    then obtain qz where "m z = Some qz" "j \<in> set (children qz)" by (auto simp: childRel_def)
    from C [OF this] m1_old [OF x] show ?thesis by auto
  qed
  have sub': "childRel m' \<subseteq> childRel m1"
    by (auto simp: childRel_def m'_def split: if_splits)
  have "forestMap m'"
    unfolding forestMap_def
  proof (intro conjI allI impI)
    fix j bj pp assume a: "m' j = Some bj" "parentId bj = Some pp"
    then have jD: "j \<notin> D1" and j1: "m1 j = Some bj" by (auto simp: m'_def split: if_splits)
    from jD iD have ji: "j \<noteq> i" by blast
    from m1_old [OF j1] obtain b0 where b0: "m j = Some b0" "parentId bj = parentId b0" by blast
    from P [OF b0(1)] a(2) b0(2) obtain qq
      where qq: "m pp = Some qq" "count_list (children qq) j = 1" by auto
    from m1_new [OF qq(1)] qq(2) ji obtain qq1
      where qq1: "m1 pp = Some qq1" "count_list (children qq1) j = 1" by auto
    from qq1(2) have "j \<in> set (children qq1)" by (metis count_list_0_iff zero_neq_one)
    with qq1(1) have "(pp, j) \<in> childRel m1" by (auto simp: childRel_def)
    with jD have "pp \<notin> D1" using down by blast
    with qq1 show "\<exists>q. m' pp = Some q \<and> count_list (children q) j = 1" by (simp add: m'_def)
  next
    fix pp qq c assume a: "m' pp = Some qq" "c \<in> set (children qq)"
    then have pD: "pp \<notin> D1" and p1: "m1 pp = Some qq" by (auto simp: m'_def split: if_splits)
    from p1 a(2) have e1: "(pp, c) \<in> childRel m1" by (auto simp: childRel_def)
    with pD have cD: "c \<notin> D1" using up by blast
    from e1 sub have "(pp, c) \<in> childRel m" by blast
    then obtain q0 where "m pp = Some q0" "c \<in> set (children q0)" by (auto simp: childRel_def)
    from C [OF this] obtain bc where bc: "m c = Some bc" "parentId bc = Some pp" by blast
    from m1_new [OF bc(1)] bc(2) cD
    show "\<exists>b. m' c = Some b \<and> parentId b = Some pp" by (auto simp: m'_def)
  next
    show "acyclic (childRel m')" using A1 sub' by (rule acyclic_subset)
  qed
  then show "forestMap (\<lambda>j. if j \<in> D1 then None else m1 j)" by (simp add: m'_def)
qed

lemma spliceJS_delete_mid:
  "spliceJS (int (length xs)) 1 [] (xs @ x # ys) = xs @ ys"
proof -
  have "nat (int (length xs) + 1) = Suc (length xs)" by simp
  then show ?thesis by (simp add: spliceJS_def Let_def min_def max_def)
qed

lemma removeLoop_append:
  "removeLoop (length xs) D (xs @ ys) = filter (\<lambda>b. idB b \<notin> D) xs @ ys"
proof (induction xs arbitrary: ys rule: rev_induct)
  case Nil
  show ?case by simp
next
  case (snoc x xs)
  have n: "(xs @ x # ys) ! length xs = x" by simp
  show ?case
  proof (cases "idB x \<in> D")
    case True
    then show ?thesis using snoc [of ys] by (simp add: n spliceJS_delete_mid)
  next
    case False
    then show ?thesis using snoc [of "x # ys"] by (simp add: n)
  qed
qed

lemma removeLoop_filter:
  "removeLoop (length blocks) D blocks = filter (\<lambda>b. idB b \<notin> D) blocks"
  using removeLoop_append [of blocks D "[]"] by simp

lemma forestInv_axis: "forestInv s \<Longrightarrow> forest (axisBlocks axis s)"
  by (simp add: forestInv_def axisBlocks_def)

lemma forestInv_setAxisBlocks:
  "forestInv s \<Longrightarrow> forest bs \<Longrightarrow> forestInv (setAxisBlocks axis bs s)"
  by (simp add: forestInv_def setAxisBlocks_def)

lemma findBlock_nth:
  "distinct (map idB blocks) \<Longrightarrow> k < length blocks \<Longrightarrow> findBlock blocks (idB (blocks ! k)) = Some (blocks ! k)"
  by (simp add: findBlock_distinct)

lemma forest_update_perm:
  assumes f: "forest blocks" and k: "k < length blocks"
    and i: "idB b' = idB (blocks ! k)" and p: "parentId b' = parentId (blocks ! k)"
    and ms: "mset (children b') = mset (children (blocks ! k))"
  shows "forest (blocks[k := b'])"
proof -
  from f have d: "distinct (map idB blocks)" and r: "length (filter isRoot blocks) = 1"
    and fm: "forestMap (findBlock blocks)" by (simp_all add: forest_iff)
  have "forestMap ((findBlock blocks)(idB b' \<mapsto> b'))"
    using fm findBlock_nth [OF d k] p ms unfolding i by (rule forestMap_perm)
  then have "forestMap (findBlock (blocks[k := b']))" by (simp add: findBlock_update [OF d k i])
  moreover have "distinct (map idB (blocks[k := b']))" using d k i by (simp add: map_idB_update)
  moreover have "length (filter isRoot (blocks[k := b'])) = 1" using r k p by (simp add: roots_update)
  ultimately show ?thesis by (simp add: forest_iff)
qed

lemma reorderBlock_forestInv:
  assumes inv: "forestInv s"
  shows "forestInv (reorderBlock axis p a ov s)"
proof -
  consider (same) "reorderBlock axis p a ov s = s"
    | (moved) parent where "findBlock (axisBlocks axis s) p = Some parent"
        "a \<in> set (children parent)" "ov \<in> set (children parent)"
    using reorderBlock_cases [of axis p a ov s] by blast
  then show ?thesis
  proof cases
    case same
    then show ?thesis using inv by simp
  next
    case moved
    note fi = findBlock_findIndex [OF moved(1)]
    define k where "k = nat (findIndex (\<lambda>b. idB b = p) (axisBlocks axis s))"
    have k: "k < length (axisBlocks axis s)"
      using findIndex_found [of "\<lambda>b. idB b = p" "axisBlocks axis s"] fi by (simp add: k_def)
    have par: "parent = axisBlocks axis s ! k" using fi by (simp add: k_def)
    have ms: "mset (insertAt (nat (indexOf (children parent) ov)) a
                 (dropAt (nat (indexOf (children parent) a)) (children parent)))
               = mset (children parent)"
      by (rule mset_move [OF moved(2)])
    have "forest ((axisBlocks axis s)[k := parent\<lparr>children :=
             insertAt (nat (indexOf (children parent) ov)) a
                 (dropAt (nat (indexOf (children parent) a)) (children parent))\<rparr>])"
      using forestInv_axis [OF inv] k
      by (rule forest_update_perm) (simp_all add: par [symmetric] ms)
    then show ?thesis
      using inv by (simp add: reorderBlock_found [OF moved] forestInv_setAxisBlocks
          insertAt_def k_def)
  qed
qed

lemma updateLabel_forestInv:
  assumes inv: "forestInv s"
  shows "forestInv (updateLabel axis i l s)"
proof (cases "findBlock (axisBlocks axis s) i")
  case None
  then show ?thesis using inv by (simp add: updateLabel_def)
next
  case (Some b)
  note fi = findBlock_findIndex [OF Some]
  define k where "k = nat (findIndex (\<lambda>b. idB b = i) (axisBlocks axis s))"
  have k: "k < length (axisBlocks axis s)"
    using findIndex_found [of "\<lambda>b. idB b = i" "axisBlocks axis s"] fi by (simp add: k_def)
  have "forest ((axisBlocks axis s)[k := (axisBlocks axis s ! k)\<lparr>label := l\<rparr>])"
    using forestInv_axis [OF inv] k by (rule forest_update_perm) simp_all
  then show ?thesis
    using inv fi
    by (simp add: updateLabel_def Some Let_def mutateFirst_findIndex forestInv_setAxisBlocks k_def)
qed

lemma forest_add:
  assumes f: "forest blocks" and q: "findBlock blocks p = Some q"
    and n: "idB nb \<notin> set (map idB blocks)"
    and par: "parentId nb = Some p" and ch: "children nb = []"
  shows "forest (blocks[nat (findIndex (\<lambda>b. idB b = p) blocks) :=
                    q\<lparr>children := children q @ [idB nb]\<rparr>] @ [nb])"
proof -
  from f have d: "distinct (map idB blocks)" and r: "length (filter isRoot blocks) = 1"
    and fm: "forestMap (findBlock blocks)" by (simp_all add: forest_iff)
  note fi = findBlock_findIndex [OF q]
  define k where "k = nat (findIndex (\<lambda>b. idB b = p) blocks)"
  define q' where "q' = q\<lparr>children := children q @ [idB nb]\<rparr>"
  have k: "k < length blocks"
    using findIndex_found [of "\<lambda>b. idB b = p" blocks] fi by (simp add: k_def)
  have qk: "q = blocks ! k" using fi by (simp add: k_def)
  have iq: "idB q = p" using findBlock_Some [OF q] by simp
  have iq': "idB q' = idB (blocks ! k)" by (simp add: q'_def qk)
  have ids: "map idB (blocks[k := q']) = map idB blocks" using k iq' by (rule map_idB_update)
  have n': "idB nb \<notin> set (map idB (blocks[k := q']))" using n by (simp add: ids)
  have none: "findBlock blocks (idB nb) = None" using n by (simp add: findBlock_None_iff)
  have "findBlock (blocks[k := q'] @ [nb]) = (findBlock blocks)(p \<mapsto> q', idB nb \<mapsto> nb)"
    using findBlock_snoc [OF n'] findBlock_update [OF d k iq'] iq by (simp add: q'_def)
  moreover have "forestMap ((findBlock blocks)(p \<mapsto> q', idB nb \<mapsto> nb))"
    unfolding q'_def using fm q none par ch by (rule forestMap_add)
  ultimately have "forestMap (findBlock (blocks[k := q'] @ [nb]))" by simp
  moreover have "distinct (map idB (blocks[k := q'] @ [nb]))"
    using d n by (simp add: ids)
  moreover have "length (filter isRoot (blocks[k := q'] @ [nb])) = 1"
  proof -
    have "parentId q' = parentId (blocks ! k)" by (simp add: q'_def qk)
    with k have "length (filter isRoot (blocks[k := q'])) = length (filter isRoot blocks)"
      by (rule roots_update)
    then show ?thesis using r par by (simp add: isRoot_def)
  qed
  ultimately show ?thesis by (simp add: forest_iff k_def q'_def)
qed

lemma addBlock_forestInv:
  assumes inv: "forestInv s"
    and fresh: "parentId' \<notin> set (map idB (axisBlocks axis s))
                \<or> (idB block \<notin> set (map idB (axisBlocks axis s))
                    \<and> parentId block = Some parentId' \<and> children block = [])"
  shows "forestInv (addBlock axis parentId' block s)"
proof (cases "findBlock (axisBlocks axis s) parentId'")
  case None
  then show ?thesis using inv by (simp add: addBlock_def)
next
  case (Some q)
  then have "parentId' \<in> set (map idB (axisBlocks axis s))"
    using findBlock_None_iff [of "axisBlocks axis s" parentId'] by simp
  with fresh have fr: "idB block \<notin> set (map idB (axisBlocks axis s))"
    "parentId block = Some parentId'" "children block = []" by simp_all
  note fi = findBlock_findIndex [OF Some]
  have "forest ((axisBlocks axis s)[nat (findIndex (\<lambda>b. idB b = parentId') (axisBlocks axis s)) :=
                    q\<lparr>children := children q @ [idB block]\<rparr>] @ [block])"
    using forestInv_axis [OF inv] Some fr by (rule forest_add)
  then show ?thesis
    using inv fi
    by (simp add: addBlock_def Some Let_def mutateFirst_findIndex forestInv_setAxisBlocks)
qed

lemma count_list_dropAt:
  assumes k: "k < length xs"
  shows "count_list (dropAt k xs) x = count_list xs x - (if x = xs ! k then 1 else 0)"
proof -
  have "count (add_mset (xs ! k) (mset (dropAt k xs))) x = count (mset xs) x"
    using mset_dropAt [OF k] by simp
  then show ?thesis by (simp add: count_mset split: if_splits)
qed

lemma set_count_list: "x \<in> set xs \<longleftrightarrow> count_list xs x \<noteq> 0"
  by (simp add: count_list_0_iff)

lemma removeBlock_step:
  assumes f: "forest (axisBlocks axis s)"
    and bi: "findBlock (axisBlocks axis s) i = Some b"
    and par: "parentId b = Some pid" and ne: "pid \<noteq> []"
  shows "\<exists>q blocks1.
           findBlock (axisBlocks axis s) pid = Some q
           \<and> blocks1 = (axisBlocks axis s)
                [nat (findIndex (\<lambda>x. idB x = pid) (axisBlocks axis s)) :=
                   q\<lparr>children := dropAt (nat (indexOf (children q) i)) (children q)\<rparr>]
           \<and> set (dropAt (nat (indexOf (children q) i)) (children q)) = set (children q) - {i}
           \<and> forest (filter (\<lambda>x. idB x \<notin> subtreeIds (findBlock blocks1) i) blocks1)
           \<and> (\<exists>n. \<forall>fuel\<ge>n. removeBlock fuel axis i s =
                 Some (setAxisBlocks axis
                         (filter (\<lambda>x. idB x \<notin> subtreeIds (findBlock blocks1) i) blocks1) s))"
proof -
  define blocks where "blocks = axisBlocks axis s"
  from f have d: "distinct (map idB blocks)" and r: "length (filter isRoot blocks) = 1"
    and fm: "forestMap (findBlock blocks)" by (simp_all add: forest_iff blocks_def)
  note bi' = bi [folded blocks_def]
  from fm bi' par obtain q where q: "findBlock blocks pid = Some q"
    and c1: "count_list (children q) i = 1" unfolding forestMap_def by blast
  have im: "i \<in> set (children q)" using c1 by (simp add: set_count_list)
  note io = indexOf_found [OF im]
  define kc where "kc = nat (indexOf (children q) i)"
  define q1 where "q1 = q\<lparr>children := dropAt kc (children q)\<rparr>"
  define kq where "kq = nat (findIndex (\<lambda>x. idB x = pid) blocks)"
  define blocks1 where "blocks1 = blocks[kq := q1]"
  define D1 where "D1 = subtreeIds (findBlock blocks1) i"
  have kc: "kc < length (children q)" "children q ! kc = i" using io by (simp_all add: kc_def)
  note fq = findBlock_findIndex [OF q]
  have kq: "kq < length blocks"
    using findIndex_found [of "\<lambda>x. idB x = pid" blocks] fq by (simp add: kq_def)
  have qk: "q = blocks ! kq" using fq by (simp add: kq_def)
  have iq: "idB q = pid" using findBlock_Some [OF q] by simp
  have iq1: "idB q1 = idB (blocks ! kq)" by (simp add: q1_def qk)
  have cnt: "count_list (children q1) x = count_list (children q) x" if "x \<noteq> i" for x
    using that kc by (simp add: q1_def count_list_dropAt)
  have ci: "count_list (children q1) i = 0"
    using kc c1 by (simp add: q1_def count_list_dropAt)
  have st: "set (children q1) = set (children q) - {i}"
  proof (intro set_eqI)
    fix x show "x \<in> set (children q1) \<longleftrightarrow> x \<in> set (children q) - {i}"
      using cnt [of x] ci by (cases "x = i") (simp_all add: set_count_list)
  qed
  \<comment> \<open>step 1\<close>
  have tr: "truthy (Some pid)" using ne by (simp add: truthy_def)
  have pred: "(\<lambda>x. Some (idB x) = parentId b) = (\<lambda>x. idB x = pid)" using par by auto
  have sp: "spliceJS (indexOf (children q) i) 1 [] (children q) = dropAt kc (children q)"
    using io by (simp add: spliceJS_delete1 kc_def)
  have step1: "removeFromParent b i blocks = blocks1"
    using fq by (simp add: removeFromParent_def tr par q pred mutateFirst_findIndex
        blocks1_def kq_def [symmetric] qk [symmetric] sp q1_def)
  \<comment> \<open>the map after step 1\<close>
  have m1: "findBlock blocks1 = (findBlock blocks)(pid \<mapsto> q1)"
    using findBlock_update [OF d kq iq1] iq by (simp add: blocks1_def q1_def)
  have d1: "distinct (map idB blocks1)"
    using d kq iq1 by (simp add: blocks1_def map_idB_update)
  have pq1: "parentId q1 = parentId q" by (simp add: q1_def)
  note rem = forestMap_remove [OF fm bi' par q pq1 st cnt, folded m1, folded D1_def]
  \<comment> \<open>step 2\<close>
  have "acyclic (subtreeRel (findBlock blocks1) i)" using rem(3) by (rule acyclic_subtreeRel)
  from dfs_settles [OF this] obtain n
    where n0: "\<forall>fuel\<ge>n. \<forall>acc. dfs fuel blocks1 i acc = Some (acc \<union> D1)"
    unfolding D1_def by blast
  have n: "dfs fuel blocks1 i {} = Some D1" if "n \<le> fuel" for fuel
    using n0 that by simp
  \<comment> \<open>the whole action\<close>
  have idx: "findIndex (\<lambda>x. idB x = i) blocks \<noteq> - 1"
    "blocks ! nat (findIndex (\<lambda>x. idB x = i) blocks) = b"
    using findBlock_findIndex [OF bi'] by simp_all
  have res: "removeBlock fuel axis i s =
               Some (setAxisBlocks axis (filter (\<lambda>x. idB x \<notin> D1) blocks1) s)"
    if "n \<le> fuel" for fuel
    using n [OF that] idx
    by (simp add: removeBlock_def Let_def blocks_def [symmetric] step1 removeLoop_filter)
  \<comment> \<open>the invariant\<close>
  have "forestMap (findBlock (filter (\<lambda>x. idB x \<notin> D1) blocks1))"
    using rem(1) by (simp add: findBlock_filter)
  moreover have "distinct (map idB (filter (\<lambda>x. idB x \<notin> D1) blocks1))"
    using d1 by (rule distinct_map_filter)
  moreover have "length (filter isRoot (filter (\<lambda>x. idB x \<notin> D1) blocks1)) = 1"
  proof -
    have "filter isRoot (filter (\<lambda>x. idB x \<notin> D1) blocks1) = filter isRoot blocks1"
      unfolding filter_filter
    proof (rule filter_cong [OF refl])
      fix x assume x: "x \<in> set blocks1"
      from findBlock_distinct [OF d1 x] have "findBlock blocks1 (idB x) = Some x" .
      with rem(2) [of "idB x" x] have "idB x \<in> D1 \<Longrightarrow> \<not> isRoot x" by (simp add: isRoot_def)
      then show "(idB x \<notin> D1 \<and> isRoot x) = isRoot x" by blast
    qed
    moreover have "length (filter isRoot blocks1) = length (filter isRoot blocks)"
      unfolding blocks1_def using kq by (rule roots_update) (simp add: q1_def qk)
    ultimately show ?thesis using r by simp
  qed
  ultimately have fo: "forest (filter (\<lambda>x. idB x \<notin> D1) blocks1)" by (simp add: forest_iff)
  have "set (dropAt kc (children q)) = set (children q) - {i}" using st by (simp add: q1_def)
  with q fo res show ?thesis
    unfolding D1_def blocks1_def q1_def kq_def kc_def blocks_def by blast
qed

lemma forEach_mono:
  assumes "\<And>c a r. c \<in> set cs \<Longrightarrow> f c a = Some r \<Longrightarrow> g c a = Some r"
  shows "forEach f cs a = Some r \<Longrightarrow> forEach g cs a = Some r"
  using assms
proof (induction cs arbitrary: a)
  case Nil
  then show ?case by simp
next
  case (Cons c cs)
  from Cons.prems(1) obtain a' where a': "f c a = Some a'" "forEach f cs a' = Some r"
    by (auto split: option.splits)
  have "g c a = Some a'" using Cons.prems(2) a'(1) by simp
  moreover have "forEach g cs a' = Some r" using Cons.IH [OF a'(2)] Cons.prems(2) by simp
  ultimately show ?case by simp
qed

lemma dfs_mono:
  "dfs n blocks x acc = Some r \<Longrightarrow> n \<le> n' \<Longrightarrow> dfs n' blocks x acc = Some r"
proof (induction n arbitrary: n' x acc r)
  case 0
  then show ?case by simp
next
  case (Suc n)
  from Suc.prems(2) obtain k where k: "n' = Suc k" "n \<le> k" by (cases n') auto
  show ?case
  proof (cases "findBlock blocks x")
    case None
    with Suc.prems(1) show ?thesis by (simp add: k(1))
  next
    case (Some b)
    with Suc.prems(1) have "forEach (dfs n blocks) (children b) (insert x acc) = Some r" by simp
    then have "forEach (dfs k blocks) (children b) (insert x acc) = Some r"
      by (rule forEach_mono [rotated]) (rule Suc.IH [OF _ k(2)])
    with Some show ?thesis by (simp add: k(1))
  qed
qed

lemma removeBlock_mono:
  "removeBlock n axis i s = Some s' \<Longrightarrow> n \<le> n' \<Longrightarrow> removeBlock n' axis i s = Some s'"
  unfolding removeBlock_def Let_def
  by (auto split: if_splits option.splits dest: dfs_mono)

lemma removeBlock_forestInv:
  assumes inv: "forestInv s"
    and ok: "i \<notin> set (map idB (axisBlocks axis s))
             \<or> (\<exists>b pid. findBlock (axisBlocks axis s) i = Some b
                          \<and> parentId b = Some pid \<and> pid \<noteq> [])"
  shows "(\<exists>n. \<forall>fuel\<ge>n. \<exists>s'. removeBlock fuel axis i s = Some s' \<and> forestInv s')
         \<and> (\<forall>fuel s'. removeBlock fuel axis i s = Some s' \<longrightarrow> forestInv s')"
proof -
  have ex: "\<exists>n s'. forestInv s' \<and> (\<forall>fuel\<ge>n. removeBlock fuel axis i s = Some s')"
  proof (cases "findBlock (axisBlocks axis s) i")
    case None
    then have "findIndex (\<lambda>b. idB b = i) (axisBlocks axis s) = - 1"
      by (simp add: findBlock_def find_findIndex split: if_splits)
    then have "removeBlock fuel axis i s = Some s" for fuel by (simp add: removeBlock_def)
    with inv show ?thesis by blast
  next
    case (Some b)
    then have "i \<in> set (map idB (axisBlocks axis s))"
      using findBlock_None_iff [of "axisBlocks axis s" i] by simp
    with ok Some obtain pid where pid: "parentId b = Some pid" "pid \<noteq> []" by auto
    from removeBlock_step [OF forestInv_axis [OF inv] Some pid]
    obtain bs n where "forest bs"
      "\<forall>fuel\<ge>n. removeBlock fuel axis i s = Some (setAxisBlocks axis bs s)"
      by blast
    with inv show ?thesis using forestInv_setAxisBlocks by blast
  qed
  then obtain n s0 where s0: "forestInv s0" "\<And>fuel. n \<le> fuel \<Longrightarrow> removeBlock fuel axis i s = Some s0"
    by blast
  have "forestInv s'" if "removeBlock fuel axis i s = Some s'" for fuel s'
  proof -
    have "removeBlock (max fuel n) axis i s = Some s'" using that by (rule removeBlock_mono) simp
    moreover have "removeBlock (max fuel n) axis i s = Some s0" by (rule s0(2)) simp
    ultimately show ?thesis using s0(1) by simp
  qed
  with s0 show ?thesis by blast
qed

lemma childRel_cut:
  assumes q: "m pid = Some q" and st: "set (children q1) = set (children q) - {i}"
  shows "childRel (m(pid \<mapsto> q1)) = childRel m - {(pid, i)}"
proof (intro set_eqI)
  fix e :: "string \<times> string"
  obtain x c where e: "e = (x, c)" by (cases e)
  show "e \<in> childRel (m(pid \<mapsto> q1)) \<longleftrightarrow> e \<in> childRel m - {(pid, i)}"
  proof (cases "x = pid")
    case True
    then show ?thesis using q st by (simp add: childRel_def e)
  next
    case False
    then show ?thesis by (simp add: childRel_def e)
  qed
qed

lemma subtreeIds_cut:
  assumes A: "acyclic (childRel m)" and e: "(pid, i) \<in> childRel m"
    and R1: "childRel m1 = childRel m - {(pid, i)}"
  shows "subtreeIds m1 i = subtreeIds m i" and "pid \<notin> subtreeIds m i"
proof -
  have no: "(i, pid) \<notin> (childRel m)\<^sup>*"
  proof
    assume "(i, pid) \<in> (childRel m)\<^sup>*"
    with e have "(pid, pid) \<in> (childRel m)\<^sup>+" by (rule rtrancl_into_trancl2)
    with A show False by (simp add: acyclic_def)
  qed
  then show "pid \<notin> subtreeIds m i" by (simp add: subtreeIds_def)
  have "(i, y) \<in> (childRel m1)\<^sup>*" if "(i, y) \<in> (childRel m)\<^sup>*" for y
    using that
  proof (induction rule: rtrancl_induct)
    case base
    show ?case by simp
  next
    case (step y z)
    from step(1) no have "y \<noteq> pid" by blast
    with step(2) have "(y, z) \<in> childRel m1" by (simp add: R1)
    with step.IH show ?case by (rule rtrancl_into_rtrancl)
  qed
  then have a: "subtreeIds m i \<subseteq> subtreeIds m1 i" by (simp add: subtreeIds_def subset_eq)
  have "childRel m1 \<subseteq> childRel m" by (simp add: R1)
  then have "(childRel m1)\<^sup>* \<subseteq> (childRel m)\<^sup>*" by (rule rtrancl_mono)
  then have "subtreeIds m1 i \<subseteq> subtreeIds m i" unfolding subtreeIds_def by blast
  with a show "subtreeIds m1 i = subtreeIds m i" by (rule equalityI [rotated])
qed

lemma removeBlock_removes_subtree:
  assumes f: "forest (axisBlocks axis s)"
    and bi: "findBlock (axisBlocks axis s) i = Some b"
    and ok: "parentId b \<noteq> Some []"
  shows "\<exists>n s'. (\<forall>fuel\<ge>n. removeBlock fuel axis i s = Some s')
           \<and> idsOf axis s' =
               filter (\<lambda>j. j \<notin> subtreeIds (findBlock (axisBlocks axis s)) i) (idsOf axis s)
           \<and> (\<forall>pid q. parentId b = Some pid \<and> findBlock (axisBlocks axis s) pid = Some q \<longrightarrow>
                 childrenOf axis pid s' = Some (dropAt (nat (indexOf (children q) i)) (children q))
                 \<and> set (dropAt (nat (indexOf (children q) i)) (children q))
                     = set (children q) - {i})
           \<and> axisBlocks (otherAxis axis) s' = axisBlocks (otherAxis axis) s"
proof (cases "parentId b")
  case None
  define blocks where "blocks = axisBlocks axis s"
  define D where "D = subtreeIds (findBlock blocks) i"
  note bi' = bi [folded blocks_def]
  have "acyclic (subtreeRel (findBlock blocks) i)"
    using forest_acyclic [OF f] by (simp add: blocks_def acyclic_subtreeRel)
  from dfs_settles [OF this] obtain n
    where n0: "\<forall>fuel\<ge>n. \<forall>acc. dfs fuel blocks i acc = Some (acc \<union> D)"
    unfolding D_def by blast
  have idx: "findIndex (\<lambda>x. idB x = i) blocks \<noteq> - 1"
    "blocks ! nat (findIndex (\<lambda>x. idB x = i) blocks) = b"
    using findBlock_findIndex [OF bi'] by simp_all
  have step1: "removeFromParent b i blocks = blocks"
    by (simp add: removeFromParent_def None truthy_def)
  have res: "removeBlock fuel axis i s =
               Some (setAxisBlocks axis (filter (\<lambda>x. idB x \<notin> D) blocks) s)"
    if "n \<le> fuel" for fuel
    using n0 that idx
    by (simp add: removeBlock_def Let_def blocks_def [symmetric] step1 removeLoop_filter)
  define s' where "s' = setAxisBlocks axis (filter (\<lambda>x. idB x \<notin> D) blocks) s"
  show ?thesis
  proof (rule exI [of _ n], rule exI [of _ s'], intro conjI)
    show "\<forall>fuel\<ge>n. removeBlock fuel axis i s = Some s'" using res by (simp add: s'_def)
    show "idsOf axis s' =
            filter (\<lambda>j. j \<notin> subtreeIds (findBlock (axisBlocks axis s)) i) (idsOf axis s)"
      by (simp add: s'_def idsOf_def axisBlocks_setAxisBlocks blocks_def D_def filter_map comp_def)
    show "\<forall>pid q. parentId b = Some pid \<and> findBlock (axisBlocks axis s) pid = Some q \<longrightarrow>
            childrenOf axis pid s' = Some (dropAt (nat (indexOf (children q) i)) (children q))
            \<and> set (dropAt (nat (indexOf (children q) i)) (children q)) = set (children q) - {i}"
      using None by simp
    show "axisBlocks (otherAxis axis) s' = axisBlocks (otherAxis axis) s"
      by (simp add: s'_def otherAxis_setAxisBlocks)
  qed
next
  case (Some pid)
  with ok have ne: "pid \<noteq> []" by simp
  define blocks where "blocks = axisBlocks axis s"
  from removeBlock_step [OF f bi Some ne] obtain q blocks1 n
    where q: "findBlock blocks pid = Some q"
      and b1: "blocks1 = blocks[nat (findIndex (\<lambda>x. idB x = pid) blocks) :=
                   q\<lparr>children := dropAt (nat (indexOf (children q) i)) (children q)\<rparr>]"
      and st: "set (dropAt (nat (indexOf (children q) i)) (children q)) = set (children q) - {i}"
      and res: "\<And>fuel. n \<le> fuel \<Longrightarrow> removeBlock fuel axis i s =
                 Some (setAxisBlocks axis
                         (filter (\<lambda>x. idB x \<notin> subtreeIds (findBlock blocks1) i) blocks1) s)"
    unfolding blocks_def by blast
  define q1 where "q1 = q\<lparr>children := dropAt (nat (indexOf (children q) i)) (children q)\<rparr>"
  define kq where "kq = nat (findIndex (\<lambda>x. idB x = pid) blocks)"
  from f have d: "distinct (map idB blocks)" and fm: "forestMap (findBlock blocks)"
    by (simp_all add: forest_iff blocks_def)
  note fq = findBlock_findIndex [OF q]
  have kq: "kq < length blocks"
    using findIndex_found [of "\<lambda>x. idB x = pid" blocks] fq by (simp add: kq_def)
  have qk: "q = blocks ! kq" using fq by (simp add: kq_def)
  have iq: "idB q = pid" using findBlock_Some [OF q] by simp
  have iq1: "idB q1 = idB (blocks ! kq)" by (simp add: q1_def qk)
  have b1': "blocks1 = blocks[kq := q1]" by (simp add: b1 q1_def kq_def)
  have m1: "findBlock blocks1 = (findBlock blocks)(pid \<mapsto> q1)"
    using findBlock_update [OF d kq iq1] iq by (simp add: b1' q1_def)
  have ids: "map idB blocks1 = map idB blocks"
    unfolding b1' using kq iq1 by (rule map_idB_update)
  have st1: "set (children q1) = set (children q) - {i}" using st by (simp add: q1_def)
  have R1: "childRel (findBlock blocks1) = childRel (findBlock blocks) - {(pid, i)}"
    unfolding m1 using q st1 by (rule childRel_cut)
  have e: "(pid, i) \<in> childRel (findBlock blocks)"
  proof -
    from fm bi [folded blocks_def] Some q have "count_list (children q) i = 1"
      unfolding forestMap_def by fastforce
    then have "i \<in> set (children q)" by (simp add: set_count_list)
    with q show ?thesis by (auto simp: childRel_def)
  qed
  have A: "acyclic (childRel (findBlock blocks))" using f by (simp add: blocks_def forest_acyclic)
  note cut = subtreeIds_cut [OF A e R1]
  define D where "D = subtreeIds (findBlock blocks) i"
  define s' where "s' = setAxisBlocks axis (filter (\<lambda>x. idB x \<notin> D) blocks1) s"
  have res': "removeBlock fuel axis i s = Some s'" if "n \<le> fuel" for fuel
    using res [OF that] by (simp add: s'_def D_def cut(1))
  have i1: "idsOf axis s' = filter (\<lambda>j. j \<notin> D) (idsOf axis s)"
    by (simp add: s'_def idsOf_def axisBlocks_setAxisBlocks blocks_def [symmetric]
        filter_map comp_def ids [symmetric])
  have c1: "childrenOf axis pid s' = Some (children q1)"
    using cut(2) by (simp add: s'_def childrenOf_def axisBlocks_setAxisBlocks findBlock_filter
        D_def m1)
  have o1: "axisBlocks (otherAxis axis) s' = axisBlocks (otherAxis axis) s"
    by (simp add: s'_def otherAxis_setAxisBlocks)
  show ?thesis
  proof (rule exI [of _ n], rule exI [of _ s'], intro conjI)
    show "\<forall>fuel\<ge>n. removeBlock fuel axis i s = Some s'" using res' by simp
    show "idsOf axis s' =
            filter (\<lambda>j. j \<notin> subtreeIds (findBlock (axisBlocks axis s)) i) (idsOf axis s)"
      using i1 by (simp add: D_def blocks_def)
    show "\<forall>pid q. parentId b = Some pid \<and> findBlock (axisBlocks axis s) pid = Some q \<longrightarrow>
            childrenOf axis pid s' = Some (dropAt (nat (indexOf (children q) i)) (children q))
            \<and> set (dropAt (nat (indexOf (children q) i)) (children q)) = set (children q) - {i}"
      using Some q c1 st by (simp add: blocks_def q1_def)
    show "axisBlocks (otherAxis axis) s' = axisBlocks (otherAxis axis) s" by (rule o1)
  qed
qed

lemma addBlock_found:
  assumes q: "findBlock (axisBlocks axis s) p = Some q"
  shows "addBlock axis p n s =
           setAxisBlocks axis
             ((axisBlocks axis s)
                [nat (findIndex (\<lambda>b. idB b = p) (axisBlocks axis s)) :=
                   q\<lparr>children := children q @ [idB n]\<rparr>] @ [n]) s"
  using findBlock_findIndex [OF q]
  by (simp add: addBlock_def q Let_def mutateFirst_findIndex)

lemma findIndex_append_new:
  "\<forall>x\<in>set xs. \<not> P x \<Longrightarrow> P y \<Longrightarrow> findIndex P (xs @ y # ys) = int (length xs)"
  by (induction xs) (auto simp: Let_def)

lemma setAxisBlocks_twice:
  "setAxisBlocks axis bs (setAxisBlocks axis bs' s) = setAxisBlocks axis bs s"
  by (simp add: setAxisBlocks_def)

lemma setAxisBlocks_same: "setAxisBlocks axis (axisBlocks axis s) s = s"
  by (simp add: setAxisBlocks_def axisBlocks_def)

lemma fresh_id: "i \<notin> set (map idB blocks) \<Longrightarrow> x \<in> set blocks \<Longrightarrow> idB x \<noteq> i"
proof
  assume "i \<notin> set (map idB blocks)" "x \<in> set blocks" "idB x = i"
  moreover from this(2) have "idB x \<in> set (map idB blocks)" by simp
  ultimately show False by simp
qed

lemma addBlock_removeBlock_restores:
  assumes f: "forest (axisBlocks axis s)"
    and q: "findBlock (axisBlocks axis s) p = Some q"
    and fresh: "idB n \<notin> set (map idB (axisBlocks axis s))"
    and ch: "children n = []" and par: "parentId n = Some p" and ne: "p \<noteq> []"
  shows "removeBlock (Suc fuel) axis (idB n) (addBlock axis p n s) = Some s"
proof -
  define blocks where "blocks = axisBlocks axis s"
  define k where "k = nat (findIndex (\<lambda>b. idB b = p) blocks)"
  define q' where "q' = q\<lparr>children := children q @ [idB n]\<rparr>"
  define blocks2 where "blocks2 = blocks[k := q'] @ [n]"
  note q0 = q [folded blocks_def]
  note fi = findBlock_findIndex [OF q0]
  have kl: "k < length blocks"
    using findIndex_found [of "\<lambda>b. idB b = p" blocks] fi by (simp add: k_def)
  have qk: "q = blocks ! k" using fi by (simp add: k_def)
  have iq: "idB q = p" using findBlock_Some [OF q0] by simp
  have iq': "idB q' = idB (blocks ! k)" by (simp add: q'_def qk)
  have ids: "map idB (blocks[k := q']) = map idB blocks" using kl iq' by (rule map_idB_update)
  have add: "addBlock axis p n s = setAxisBlocks axis blocks2 s"
    using addBlock_found [OF q, of n] by (simp add: blocks2_def q'_def k_def blocks_def)
  have ax: "axisBlocks axis (addBlock axis p n s) = blocks2"
    by (simp add: add axisBlocks_setAxisBlocks)
  \<comment> \<open>the new block is found at the end\<close>
  have nf: "\<forall>x\<in>set (blocks[k := q']). \<not> idB x = idB n"
  proof
    fix x assume x: "x \<in> set (blocks[k := q'])"
    have "set (map idB (blocks[k := q'])) = set (map idB blocks)" by (simp only: ids)
    then have "idB ` set (blocks[k := q']) = idB ` set blocks" by (simp only: set_map)
    with x have "idB x \<in> idB ` set blocks" by blast
    then show "\<not> idB x = idB n" using fresh by (auto simp: blocks_def)
  qed
  have idx: "findIndex (\<lambda>x. idB x = idB n) blocks2 = int (length blocks)"
    using findIndex_append_new [of "blocks[k := q']" "\<lambda>x. idB x = idB n" n "[]"] nf
    by (simp add: blocks2_def)
  have blk: "blocks2 ! length blocks = n"
    by (simp add: blocks2_def nth_append)
  \<comment> \<open>step 1 undoes the change to the parent\<close>
  have d: "distinct (map idB blocks)" using f by (simp add: blocks_def forest_distinct)
  have fk: "findIndex (\<lambda>b. idB b = p) (blocks[k := q']) = findIndex (\<lambda>b. idB b = p) blocks"
  proof -
    have "findIndex (\<lambda>b. idB b = p) xs = findIndex (\<lambda>i. i = p) (map idB xs)" for xs :: "Block list"
      by (induction xs) (auto simp: Let_def)
    then show ?thesis by (simp only: ids)
  qed
  have "p \<in> set (map idB (axisBlocks axis s))"
    using q findBlock_None_iff [of "axisBlocks axis s" p] by simp
  with fresh have pn: "p \<noteq> idB n" by blast
  have fp2: "findBlock blocks2 p = Some q'"
  proof -
    have "findBlock (blocks[k := q']) p = Some q'"
      using findBlock_update [OF d kl iq'] iq by (simp add: q'_def)
    then show ?thesis by (simp add: blocks2_def findBlock_def find_append)
  qed
  have fi2: "findIndex (\<lambda>b. idB b = p) blocks2 = int k"
  proof -
    have app: "findIndex P (xs @ ys) = findIndex P xs" if "findIndex P xs \<noteq> - 1"
      for P :: "Block \<Rightarrow> bool" and xs ys
      using that by (induction xs) (auto simp: Let_def)
    have "findIndex (\<lambda>b. idB b = p) (blocks[k := q']) \<noteq> - 1" using fi by (simp only: fk) simp
    then have "findIndex (\<lambda>b. idB b = p) blocks2 = findIndex (\<lambda>b. idB b = p) (blocks[k := q'])"
      unfolding blocks2_def by (rule app)
    also have "\<dots> = findIndex (\<lambda>b. idB b = p) blocks" by (rule fk)
    also have "\<dots> = int k"
      using findIndex_found [of "\<lambda>b. idB b = p" blocks] fi by (simp add: k_def)
    finally show ?thesis .
  qed
  have nq: "idB n \<notin> set (children q)"
  proof
    assume "idB n \<in> set (children q)"
    with forest_child [OF f findBlock_Some [OF q, THEN conjunct1]]
    obtain b where "findBlock (axisBlocks axis s) (idB n) = Some b" by blast
    with fresh findBlock_None_iff [of "axisBlocks axis s" "idB n"] show False by simp
  qed
  have io: "indexOf (children q @ [idB n]) (idB n) = int (length (children q))"
    unfolding indexOf_def
    using findIndex_append_new [of "children q" "\<lambda>x. x = idB n" "idB n" "[]"] nq by auto
  have sp: "spliceJS (int (length (children q))) 1 [] (children q @ [idB n]) = children q"
    using spliceJS_delete_mid [of "children q" "idB n" "[]"] by simp
  have undo: "q'\<lparr>children := children q\<rparr> = q" by (simp add: q'_def)
  have tr: "truthy (Some p)" using ne by (simp add: truthy_def)
  have pred: "(\<lambda>x. Some (idB x) = Some p) = (\<lambda>x. idB x = p)" by auto
  have upd2: "blocks2[k := q] = blocks @ [n]"
    using kl qk by (simp add: blocks2_def list_update_append)
  have step1: "removeFromParent n (idB n) blocks2 = blocks @ [n]"
  proof -
    have "blocks2 ! k = q'" using kl by (simp add: blocks2_def nth_append)
    then show ?thesis
      by (simp add: removeFromParent_def par tr fp2 mutateFirst_findIndex fi2 io sp
          q'_def upd2 [unfolded q'_def])
  qed
  \<comment> \<open>steps 2 and 3 remove the new block alone\<close>
  have fn: "findBlock (blocks @ [n]) (idB n) = Some n"
    using findBlock_snoc [of n blocks] fresh by (simp add: blocks_def)
  have dfs1: "dfs (Suc fuel) (blocks @ [n]) (idB n) {} = Some {idB n}"
    by (simp add: fn ch)
  have "filter (\<lambda>b. idB b \<noteq> idB n) blocks = blocks"
    using fresh_id [OF fresh] by (simp add: blocks_def)
  then have flt: "filter (\<lambda>b. idB b \<notin> {idB n}) (blocks @ [n]) = blocks" by simp
  have "removeLoop (length (blocks @ [n])) {idB n} (blocks @ [n]) = blocks"
    by (simp only: removeLoop_filter flt)
  then have rl: "removeLoop (Suc (length blocks)) {idB n} (blocks @ [n]) = blocks"
    by (simp del: removeLoop.simps)
  have "removeBlock (Suc fuel) axis (idB n) (setAxisBlocks axis blocks2 s)
          = Some (setAxisBlocks axis blocks (setAxisBlocks axis blocks2 s))"
    by (simp add: removeBlock_def Let_def axisBlocks_setAxisBlocks idx blk step1 dfs1 rl
        del: dfs.simps removeLoop.simps)
  also have "setAxisBlocks axis blocks (setAxisBlocks axis blocks2 s) = s"
    by (simp add: setAxisBlocks_twice blocks_def setAxisBlocks_same)
  finally show ?thesis by (simp only: add)
qed

section \<open>Reordering siblings\<close>

text \<open>
  Claim C4. When the parent \<open>p\<close> is found in the axis's list and \<open>activeId\<close> and \<open>overId\<close>
  both occur in its child sequence, \<^verbatim>\<open>reorderBlock\<close> replaces that child sequence by the one
  obtained by removing \<open>activeId\<close> at its index and inserting it at the index \<open>overId\<close> had:
  \<open>activeId\<close> then sits at that index, the length is unchanged, and the other axis is not
  touched. When the parent is absent, or either identifier is not among the parent's
  children, the state is unchanged.
\<close>

theorem reorderBlock_moves:
  "(findBlock (axisBlocks axis s) p = Some parent
      \<and> a \<in> set (children parent) \<and> ov \<in> set (children parent) \<longrightarrow>
      axisBlocks axis (reorderBlock axis p a ov s) =
        (axisBlocks axis s)
          [nat (findIndex (\<lambda>b. idB b = p) (axisBlocks axis s)) :=
             parent\<lparr>children :=
               insertAt (nat (indexOf (children parent) ov)) a
                 (dropAt (nat (indexOf (children parent) a)) (children parent))\<rparr>]
      \<and> insertAt (nat (indexOf (children parent) ov)) a
           (dropAt (nat (indexOf (children parent) a)) (children parent))
           ! nat (indexOf (children parent) ov) = a
      \<and> length (insertAt (nat (indexOf (children parent) ov)) a
           (dropAt (nat (indexOf (children parent) a)) (children parent)))
          = length (children parent)
      \<and> axisBlocks (otherAxis axis) (reorderBlock axis p a ov s) = axisBlocks (otherAxis axis) s)
   \<and> (q \<notin> set (map idB (axisBlocks axis s)) \<longrightarrow> reorderBlock axis q a ov s = s)
   \<and> (findBlock (axisBlocks axis s) r = Some parent'
        \<and> (a' \<notin> set (children parent') \<or> ov' \<notin> set (children parent'))
      \<longrightarrow> reorderBlock axis r a' ov' s = s)"
proof (intro conjI impI)
  assume h: "findBlock (axisBlocks axis s) p = Some parent
      \<and> a \<in> set (children parent) \<and> ov \<in> set (children parent)"
  then have f: "findBlock (axisBlocks axis s) p = Some parent"
    and a: "a \<in> set (children parent)" and o: "ov \<in> set (children parent)" by simp_all
  note r = reorderBlock_found [OF f a o]
  note fa = indexOf_found [OF a] and fo = indexOf_found [OF o]
  have len: "length (dropAt (nat (indexOf (children parent) a)) (children parent))
               = length (children parent) - 1"
    using fa by (simp add: length_dropAt)
  have le: "nat (indexOf (children parent) ov)
              \<le> length (dropAt (nat (indexOf (children parent) a)) (children parent))"
    using fo len by arith
  show "axisBlocks axis (reorderBlock axis p a ov s) =
        (axisBlocks axis s)
          [nat (findIndex (\<lambda>b. idB b = p) (axisBlocks axis s)) :=
             parent\<lparr>children :=
               insertAt (nat (indexOf (children parent) ov)) a
                 (dropAt (nat (indexOf (children parent) a)) (children parent))\<rparr>]"
    by (simp add: r axisBlocks_setAxisBlocks insertAt_def)
  show "insertAt (nat (indexOf (children parent) ov)) a
           (dropAt (nat (indexOf (children parent) a)) (children parent))
           ! nat (indexOf (children parent) ov) = a"
    using le by (rule nth_insertAt)
  show "length (insertAt (nat (indexOf (children parent) ov)) a
           (dropAt (nat (indexOf (children parent) a)) (children parent)))
          = length (children parent)"
  proof -
    have "0 < length (children parent)" using fa by arith
    then show ?thesis using len by (simp add: length_insertAt)
  qed
  show "axisBlocks (otherAxis axis) (reorderBlock axis p a ov s) = axisBlocks (otherAxis axis) s"
    by (simp add: r otherAxis_setAxisBlocks)
next
  assume "q \<notin> set (map idB (axisBlocks axis s))"
  then have "findBlock (axisBlocks axis s) q = None" by (simp add: findBlock_None_iff)
  then show "reorderBlock axis q a ov s = s" by (simp add: reorderBlock_def)
next
  assume "findBlock (axisBlocks axis s) r = Some parent'
        \<and> (a' \<notin> set (children parent') \<or> ov' \<notin> set (children parent'))"
  then show "reorderBlock axis r a' ov' s = s"
    by (auto simp: reorderBlock_def Let_def indexOf_neg_iff)
qed

theorem reorderBlock_moves_witness:
  "findBlock (axisBlocks Row initialState) ''ROW_A'' = Some rowA
   \<and> ''ROW_A2'' \<in> set (children rowA) \<and> ''ROW_A1'' \<in> set (children rowA)
   \<and> ''NOPE'' \<notin> set (map idB (axisBlocks Row initialState))
   \<and> ''NOPE'' \<notin> set (children rowA)
   \<and> axisBlocks Row (reorderBlock Row ''ROW_A'' ''ROW_A2'' ''ROW_A1'' initialState) =
       (axisBlocks Row initialState)[1 := rowA\<lparr>children := [''ROW_A2'', ''ROW_A1'']\<rparr>]
   \<and> reorderBlock Row ''NOPE'' ''ROW_A2'' ''ROW_A1'' initialState = initialState
   \<and> reorderBlock Row ''ROW_A'' ''NOPE'' ''ROW_A1'' initialState = initialState"
proof -
  have h1: "findBlock (axisBlocks Row initialState) ''ROW_A'' = Some rowA"
    by (simp add: axisBlocks_def initialState_def findBlock_def rowA_def)
  have h2: "''ROW_A2'' \<in> set (children rowA) \<and> ''ROW_A1'' \<in> set (children rowA)
     \<and> ''NOPE'' \<notin> set (children rowA)"
    by (simp add: rowA_def)
  have h3: "''NOPE'' \<notin> set (map idB (axisBlocks Row initialState))"
    by (simp add: axisBlocks_def initialState_def)
  have k: "nat (findIndex (\<lambda>b. idB b = ''ROW_A'') (axisBlocks Row initialState)) = 1"
    by (simp add: axisBlocks_def initialState_def)
  have c: "insertAt (nat (indexOf (children rowA) ''ROW_A1'')) ''ROW_A2''
             (dropAt (nat (indexOf (children rowA) ''ROW_A2'')) (children rowA))
           = [''ROW_A2'', ''ROW_A1'']"
    by (simp add: rowA_def indexOf_def insertAt_def dropAt_def)
  show ?thesis
    using h1 h2 h3
      reorderBlock_moves [of Row initialState "''ROW_A''" rowA "''ROW_A2''" "''ROW_A1''"
        "''NOPE''" "''ROW_A''" rowA "''NOPE''" "''ROW_A1''"]
    by (simp add: k c)
qed

text \<open>
  Claim C5. For all arguments, \<^verbatim>\<open>reorderBlock\<close> keeps the length of the axis's list and, at
  every position, the block's identifier, label, parent and the identifiers of its child
  sequence (as a multiset, hence as a set): only the order of the parent's children may
  change. Every block but the parent is unchanged (every block, when the parent is
  not in the list), and so is the other axis.
\<close>

theorem reorderBlock_frame:
  "length (axisBlocks axis (reorderBlock axis p a ov s)) = length (axisBlocks axis s)
   \<and> (\<forall>j < length (axisBlocks axis s).
        idB (axisBlocks axis (reorderBlock axis p a ov s) ! j) = idB (axisBlocks axis s ! j)
        \<and> label (axisBlocks axis (reorderBlock axis p a ov s) ! j) = label (axisBlocks axis s ! j)
        \<and> parentId (axisBlocks axis (reorderBlock axis p a ov s) ! j) = parentId (axisBlocks axis s ! j)
        \<and> mset (children (axisBlocks axis (reorderBlock axis p a ov s) ! j))
            = mset (children (axisBlocks axis s ! j))
        \<and> set (children (axisBlocks axis (reorderBlock axis p a ov s) ! j))
            = set (children (axisBlocks axis s ! j))
        \<and> (p \<notin> set (map idB (axisBlocks axis s))
             \<or> j \<noteq> nat (findIndex (\<lambda>b. idB b = p) (axisBlocks axis s)) \<longrightarrow>
             axisBlocks axis (reorderBlock axis p a ov s) ! j = axisBlocks axis s ! j))
   \<and> axisBlocks (otherAxis axis) (reorderBlock axis p a ov s) = axisBlocks (otherAxis axis) s"
proof -
  consider (same) "reorderBlock axis p a ov s = s"
    | (moved) parent where "findBlock (axisBlocks axis s) p = Some parent"
        "a \<in> set (children parent)" "ov \<in> set (children parent)"
    using reorderBlock_cases [of axis p a ov s] by blast
  then show ?thesis
  proof cases
    case same
    then show ?thesis by simp
  next
    case moved
    note r = reorderBlock_found [OF moved]
    note fi = findBlock_findIndex [OF moved(1)]
    define k where "k = nat (findIndex (\<lambda>b. idB b = p) (axisBlocks axis s))"
    define cs' where "cs' = insertAt (nat (indexOf (children parent) ov)) a
                 (dropAt (nat (indexOf (children parent) a)) (children parent))"
    have bl: "axisBlocks axis (reorderBlock axis p a ov s) =
                (axisBlocks axis s)[k := parent\<lparr>children := cs'\<rparr>]"
      by (simp add: r axisBlocks_setAxisBlocks insertAt_def k_def cs'_def)
    have par: "parent = axisBlocks axis s ! k" using fi by (simp add: k_def)
    have pin: "p \<in> set (map idB (axisBlocks axis s))"
      using moved(1) findBlock_None_iff [of "axisBlocks axis s" p] by simp
    have ms: "mset cs' = mset (children parent)"
      unfolding cs'_def by (rule mset_move [OF moved(2)])
    then have st: "set cs' = set (children parent)" by (rule mset_eq_setD)
    have other: "axisBlocks (otherAxis axis) (reorderBlock axis p a ov s) = axisBlocks (otherAxis axis) s"
      by (simp add: r otherAxis_setAxisBlocks)
    have each: "idB (axisBlocks axis (reorderBlock axis p a ov s) ! j) = idB (axisBlocks axis s ! j)
        \<and> label (axisBlocks axis (reorderBlock axis p a ov s) ! j) = label (axisBlocks axis s ! j)
        \<and> parentId (axisBlocks axis (reorderBlock axis p a ov s) ! j) = parentId (axisBlocks axis s ! j)
        \<and> mset (children (axisBlocks axis (reorderBlock axis p a ov s) ! j))
            = mset (children (axisBlocks axis s ! j))
        \<and> set (children (axisBlocks axis (reorderBlock axis p a ov s) ! j))
            = set (children (axisBlocks axis s ! j))
        \<and> (p \<notin> set (map idB (axisBlocks axis s)) \<or> j \<noteq> k \<longrightarrow>
             axisBlocks axis (reorderBlock axis p a ov s) ! j = axisBlocks axis s ! j)"
      if "j < length (axisBlocks axis s)" for j
      using that ms st par pin by (cases "j = k") (simp_all add: bl)
    show ?thesis using each other by (simp add: bl k_def [symmetric])
  qed
qed

theorem reorderBlock_frame_witness:
  "(1::nat) < length (axisBlocks Row initialState)
   \<and> 1 = nat (findIndex (\<lambda>b. idB b = ''ROW_A'') (axisBlocks Row initialState))
   \<and> mset (children (axisBlocks Row (reorderBlock Row ''ROW_A'' ''ROW_A2'' ''ROW_A1'' initialState) ! 1))
       = mset [''ROW_A1'', ''ROW_A2'']
   \<and> (2::nat) < length (axisBlocks Row initialState)
   \<and> 2 \<noteq> nat (findIndex (\<lambda>b. idB b = ''ROW_A'') (axisBlocks Row initialState))
   \<and> axisBlocks Row (reorderBlock Row ''ROW_A'' ''ROW_A2'' ''ROW_A1'' initialState) ! 2 = rowB"
proof -
  have l: "length (axisBlocks Row initialState) = 6"
    by (simp add: axisBlocks_def initialState_def)
  have k: "nat (findIndex (\<lambda>b. idB b = ''ROW_A'') (axisBlocks Row initialState)) = 1"
    by (simp add: axisBlocks_def initialState_def)
  have n1: "axisBlocks Row initialState ! Suc 0 = rowA"
    by (simp add: axisBlocks_def initialState_def rowA_def)
  have n2: "axisBlocks Row initialState ! 2 = rowB"
    by (simp add: axisBlocks_def initialState_def rowB_def)
  have c: "children rowA = [''ROW_A1'', ''ROW_A2'']" by (simp add: rowA_def)
  note t = reorderBlock_frame [of Row "''ROW_A''" "''ROW_A2''" "''ROW_A1''" initialState]
  from t have a: "\<And>j. j < 6 \<Longrightarrow> mset (children (axisBlocks Row (reorderBlock Row ''ROW_A'' ''ROW_A2'' ''ROW_A1'' initialState) ! j))
            = mset (children (axisBlocks Row initialState ! j))
        \<and> (j \<noteq> 1 \<longrightarrow>
             axisBlocks Row (reorderBlock Row ''ROW_A'' ''ROW_A2'' ''ROW_A1'' initialState) ! j
               = axisBlocks Row initialState ! j)"
    by (simp add: l k)
  have "mset (children (axisBlocks Row (reorderBlock Row ''ROW_A'' ''ROW_A2'' ''ROW_A1'' initialState) ! 1))
            = mset (children (axisBlocks Row initialState ! 1))"
    using a [of 1] by simp
  moreover have "axisBlocks Row (reorderBlock Row ''ROW_A'' ''ROW_A2'' ''ROW_A1'' initialState) ! 2
               = axisBlocks Row initialState ! 2"
    using a [of 2] by simp
  ultimately show ?thesis by (simp add: l k n1 n2 c)
qed

section \<open>Inserting a block\<close>

text \<open>
  Claim C8. When \<open>parentId\<close> is found in the axis's list, \<^verbatim>\<open>addBlock\<close> appends the block's
  identifier to that parent's child sequence and the block to the end of the list; every
  other block and the other axis are unchanged. When \<open>parentId\<close> is absent the state is
  unchanged.
\<close>

theorem addBlock_appends:
  "(findBlock (axisBlocks axis s) p = Some parent \<longrightarrow>
      axisBlocks axis (addBlock axis p n s) =
        (axisBlocks axis s)
          [nat (findIndex (\<lambda>b. idB b = p) (axisBlocks axis s)) :=
             parent\<lparr>children := children parent @ [idB n]\<rparr>] @ [n]
      \<and> axisBlocks (otherAxis axis) (addBlock axis p n s) = axisBlocks (otherAxis axis) s)
   \<and> (q \<notin> set (map idB (axisBlocks axis s)) \<longrightarrow> addBlock axis q n s = s)"
proof (intro conjI impI)
  assume f: "findBlock (axisBlocks axis s) p = Some parent"
  note fi = findBlock_findIndex [OF f]
  show "axisBlocks axis (addBlock axis p n s) =
        (axisBlocks axis s)
          [nat (findIndex (\<lambda>b. idB b = p) (axisBlocks axis s)) :=
             parent\<lparr>children := children parent @ [idB n]\<rparr>] @ [n]"
    using fi by (simp add: addBlock_def f Let_def axisBlocks_setAxisBlocks mutateFirst_findIndex)
  show "axisBlocks (otherAxis axis) (addBlock axis p n s) = axisBlocks (otherAxis axis) s"
    by (simp add: addBlock_def f otherAxis_setAxisBlocks)
next
  assume "q \<notin> set (map idB (axisBlocks axis s))"
  then have "findBlock (axisBlocks axis s) q = None" by (simp add: findBlock_None_iff)
  then show "addBlock axis q n s = s" by (simp add: addBlock_def)
qed

theorem addBlock_appends_witness:
  "findBlock (axisBlocks Row initialState) ''ROW_B'' = Some rowB
   \<and> ''NOPE'' \<notin> set (map idB (axisBlocks Row initialState))
   \<and> axisBlocks Row (addBlock Row ''ROW_B'' rowB2 initialState) =
       (axisBlocks Row initialState)[2 := rowB\<lparr>children := [''ROW_B1'', ''ROW_B2'']\<rparr>] @ [rowB2]
   \<and> addBlock Row ''NOPE'' rowB2 initialState = initialState"
proof -
  have h1: "findBlock (axisBlocks Row initialState) ''ROW_B'' = Some rowB"
    by (simp add: axisBlocks_def initialState_def findBlock_def rowB_def)
  have h2: "''NOPE'' \<notin> set (map idB (axisBlocks Row initialState))"
    by (simp add: axisBlocks_def initialState_def)
  have k: "nat (findIndex (\<lambda>b. idB b = ''ROW_B'') (axisBlocks Row initialState)) = 2"
    by (simp add: axisBlocks_def initialState_def)
  show ?thesis
    using h1 h2 addBlock_appends [of Row initialState "''ROW_B''" rowB rowB2 "''NOPE''"]
    by (simp add: k rowB_def rowB2_def)
qed

section \<open>Missing identifiers\<close>

text \<open>
  Claim C7. Each action leaves the whole state unchanged when the identifier it targets is
  absent: \<^verbatim>\<open>reorderBlock\<close> when the parent is not in the list or when \<open>activeId\<close> or
  \<open>overId\<close> is not among the parent's children, \<^verbatim>\<open>updateLabel\<close> and \<^verbatim>\<open>removeBlock\<close>
  when the block is not in the list, \<^verbatim>\<open>addBlock\<close> when the parent is not in the list.
\<close>

theorem mutations_noop_on_missing:
  "(p \<notin> set (map idB (axisBlocks axis s)) \<longrightarrow> reorderBlock axis p a ov s = s)
   \<and> (findBlock (axisBlocks axis s) q = Some parent
        \<and> (a \<notin> set (children parent) \<or> ov \<notin> set (children parent))
      \<longrightarrow> reorderBlock axis q a ov s = s)
   \<and> (i \<notin> set (map idB (axisBlocks axis s)) \<longrightarrow> updateLabel axis i l s = s)
   \<and> (p \<notin> set (map idB (axisBlocks axis s)) \<longrightarrow> addBlock axis p n s = s)
   \<and> (i \<notin> set (map idB (axisBlocks axis s)) \<longrightarrow> removeBlock fuel axis i s = Some s)"
proof (intro conjI impI)
  assume "p \<notin> set (map idB (axisBlocks axis s))"
  then have none: "findBlock (axisBlocks axis s) p = None" by (simp add: findBlock_None_iff)
  show "reorderBlock axis p a ov s = s" by (simp add: reorderBlock_def none)
  show "addBlock axis p n s = s" by (simp add: addBlock_def none)
next
  assume "findBlock (axisBlocks axis s) q = Some parent
        \<and> (a \<notin> set (children parent) \<or> ov \<notin> set (children parent))"
  then show "reorderBlock axis q a ov s = s"
    by (auto simp: reorderBlock_def Let_def indexOf_neg_iff)
next
  assume "i \<notin> set (map idB (axisBlocks axis s))"
  then have none: "findBlock (axisBlocks axis s) i = None" by (simp add: findBlock_None_iff)
  show "updateLabel axis i l s = s" by (simp add: updateLabel_def none)
  from none have "findIndex (\<lambda>b. idB b = i) (axisBlocks axis s) = - 1"
    by (simp add: findBlock_def find_findIndex split: if_splits)
  then show "removeBlock fuel axis i s = Some s" by (simp add: removeBlock_def)
qed

theorem mutations_noop_on_missing_witness:
  "''NOPE'' \<notin> set (map idB (axisBlocks Row initialState))
   \<and> findBlock (axisBlocks Row initialState) ''ROW_A'' =
        Some \<lparr>idB = ''ROW_A'', label = ''Row-A'', parentId = Some ''ROW_ROOT'', children = [''ROW_A1'', ''ROW_A2'']\<rparr>
   \<and> ''NOPE'' \<notin> set [''ROW_A1'', ''ROW_A2'']
   \<and> reorderBlock Row ''NOPE'' ''NOPE'' ''ROW_A1'' initialState = initialState
   \<and> reorderBlock Row ''ROW_A'' ''NOPE'' ''ROW_A1'' initialState = initialState
   \<and> updateLabel Row ''NOPE'' ''new'' initialState = initialState
   \<and> addBlock Row ''NOPE'' \<lparr>idB = ''N'', label = ''n'', parentId = Some ''NOPE'', children = []\<rparr> initialState = initialState
   \<and> removeBlock 0 Row ''NOPE'' initialState = Some initialState"
proof -
  have h1: "''NOPE'' \<notin> set (map idB (axisBlocks Row initialState))"
    by (simp add: axisBlocks_def initialState_def)
  have h2: "findBlock (axisBlocks Row initialState) ''ROW_A'' =
        Some \<lparr>idB = ''ROW_A'', label = ''Row-A'', parentId = Some ''ROW_ROOT'', children = [''ROW_A1'', ''ROW_A2'']\<rparr>"
    by (simp add: axisBlocks_def initialState_def findBlock_def)
  have h3: "''NOPE'' \<notin> set [''ROW_A1'', ''ROW_A2'']" by simp
  show ?thesis
    using h1 h2 h3
      mutations_noop_on_missing [of "''NOPE''" Row initialState "''NOPE''" "''ROW_A1''" "''ROW_A''"
        "\<lparr>idB = ''ROW_A'', label = ''Row-A'', parentId = Some ''ROW_ROOT'', children = [''ROW_A1'', ''ROW_A2'']\<rparr>"
        "''NOPE''" "''new''" "\<lparr>idB = ''N'', label = ''n'', parentId = Some ''NOPE'', children = []\<rparr>" 0]
    by simp
qed

section \<open>Leaf counts and leaf lists\<close>

text \<open>
  Claim C6. On a (finite) block map in which every child identifier is a key and the
  subtree below \<open>id\<close> has no cycle, \<^verbatim>\<open>flattenLeaves(id, map)\<close> and \<^verbatim>\<open>leafCount(id, map)\<close>
  both return, and \<^verbatim>\<open>leafCount\<close> returns the length of the list \<^verbatim>\<open>flattenLeaves\<close> returns
  (when \<open>id\<close> is not a key both throw the same TypeError).
\<close>

theorem leafCount_eq_length_flattenLeaves:
  assumes "finite (dom m)" and "resolves m" and "acyclic (subtreeRel m i)"
  shows "\<exists>n r. (\<forall>fuel\<ge>n. flattenLeaves fuel i m = Some r
                    \<and> leafCount fuel i m = Some (map_sum (\<lambda>e. e) length r))
               \<and> (i \<in> dom m \<longrightarrow> (\<exists>ls. r = Inr ls))"
proof (cases "i \<in> dom m")
  case True
  from flattenLeaves_settles [OF assms True] obtain ls n
    where n: "\<And>fuel. n \<le> fuel \<Longrightarrow> flattenLeaves fuel i m = Some (Inr ls)"
    unfolding settles_def by blast
  have "\<forall>fuel\<ge>n. flattenLeaves fuel i m = Some (Inr ls)
          \<and> leafCount fuel i m = Some (map_sum (\<lambda>e. e) length (Inr ls))"
    by (simp add: n leafCount_flattenLeaves lengthResult_def)
  then show ?thesis by blast
next
  case False
  from missing_settles [OF False] obtain n
    where n: "\<And>fuel. n \<le> fuel \<Longrightarrow> flattenLeaves fuel i m = Some (Inl TypeError)"
    unfolding settles_def by blast
  have "\<forall>fuel\<ge>n. flattenLeaves fuel i m = Some (Inl TypeError)
          \<and> leafCount fuel i m = Some (map_sum (\<lambda>e. e) length (Inl TypeError))"
    by (simp add: n leafCount_flattenLeaves lengthResult_def)
  then show ?thesis using False by blast
qed

theorem leafCount_eq_length_flattenLeaves_witness:
  "finite (dom (buildMap (rowBlocks initialState)))
   \<and> resolves (buildMap (rowBlocks initialState))
   \<and> acyclic (subtreeRel (buildMap (rowBlocks initialState)) ''ROW_ROOT'')
   \<and> ''ROW_ROOT'' \<in> dom (buildMap (rowBlocks initialState))
   \<and> (\<exists>n ls. \<forall>fuel\<ge>n.
          flattenLeaves fuel ''ROW_ROOT'' (buildMap (rowBlocks initialState)) = Some (Inr ls)
          \<and> leafCount fuel ''ROW_ROOT'' (buildMap (rowBlocks initialState)) = Some (Inr (length ls)))
   \<and> flattenLeaves 3 ''ROW_ROOT'' (buildMap (rowBlocks initialState))
        = Some (Inr [''ROW_A1'', ''ROW_A2'', ''ROW_B1''])
   \<and> leafCount 3 ''ROW_ROOT'' (buildMap (rowBlocks initialState)) = Some (Inr 3)"
proof -
  have f: "forest (rowBlocks initialState)" by code_simp
  have m: "buildMap (rowBlocks initialState) = findBlock (rowBlocks initialState)"
    using forest_distinct [OF f] by (rule buildMap_findBlock)
  have h1: "finite (dom (buildMap (rowBlocks initialState)))" by (simp add: m dom_findBlock)
  have h2: "resolves (buildMap (rowBlocks initialState))" using forest_resolves [OF f] by (simp add: m)
  have h3: "acyclic (subtreeRel (buildMap (rowBlocks initialState)) ''ROW_ROOT'')"
    using forest_acyclic [OF f] by (simp add: m acyclic_subtreeRel)
  have h4: "''ROW_ROOT'' \<in> dom (buildMap (rowBlocks initialState))"
    unfolding m dom_findBlock by (simp add: initialState_def)
  have e1: "flattenLeaves 3 ''ROW_ROOT'' (buildMap (rowBlocks initialState))
        = Some (Inr [''ROW_A1'', ''ROW_A2'', ''ROW_B1''])" by code_simp
  have e2: "leafCount 3 ''ROW_ROOT'' (buildMap (rowBlocks initialState)) = Some (Inr 3)"
    by code_simp
  from leafCount_eq_length_flattenLeaves [OF h1 h2 h3] h4
  obtain n ls where "\<forall>fuel\<ge>n.
          flattenLeaves fuel ''ROW_ROOT'' (buildMap (rowBlocks initialState)) = Some (Inr ls)
          \<and> leafCount fuel ''ROW_ROOT'' (buildMap (rowBlocks initialState))
               = Some (map_sum (\<lambda>e. e) length (Inr ls :: error + string list))"
    by blast
  then have "\<exists>n ls. \<forall>fuel\<ge>n.
          flattenLeaves fuel ''ROW_ROOT'' (buildMap (rowBlocks initialState)) = Some (Inr ls)
          \<and> leafCount fuel ''ROW_ROOT'' (buildMap (rowBlocks initialState)) = Some (Inr (length ls))"
    by auto
  with h1 h2 h3 h4 e1 e2 show ?thesis by blast
qed

text \<open>
  Claim C10, as amended. On a (finite) block map in which every child identifier is a key
  and the child graph has no cycle, \<^verbatim>\<open>leafCount\<close> and \<^verbatim>\<open>flattenLeaves\<close> end on every
  identifier: the recursion is well-founded. When the identifier is a key of the map no
  lookup fails and both return a value; when it is not, the first lookup
  \<^verbatim>\<open>map.get(id)!\<close> is \<^verbatim>\<open>undefined\<close> and both throw a TypeError. On a block list whose
  child graph has no cycle, the \<^verbatim>\<open>dfs\<close> of \<^verbatim>\<open>removeBlock\<close> returns on every identifier,
  having added it and all its descendants to \<^verbatim>\<open>removeIds\<close>.
\<close>

theorem recursions_terminate:
  "(finite (dom m) \<and> resolves m \<and> acyclic (childRel m) \<longrightarrow>
      (\<exists>n r r'. (\<forall>fuel\<ge>n. leafCount fuel i m = Some r \<and> flattenLeaves fuel i m = Some r')
         \<and> (i \<in> dom m \<longrightarrow> (\<exists>k ls. r = Inr k \<and> r' = Inr ls))
         \<and> (i \<notin> dom m \<longrightarrow> r = Inl TypeError \<and> r' = Inl TypeError)))
   \<and> (acyclic (childRel (findBlock blocks)) \<longrightarrow>
      (\<exists>n. \<forall>fuel\<ge>n. \<forall>removeIds.
         dfs fuel blocks j removeIds = Some (removeIds \<union> subtreeIds (findBlock blocks) j)))"
proof (intro conjI impI)
  assume h: "finite (dom m) \<and> resolves m \<and> acyclic (childRel m)"
  then have f: "finite (dom m)" and r: "resolves m"
    and a: "acyclic (subtreeRel m i)" by (simp_all add: acyclic_subtreeRel)
  show "\<exists>n r r'. (\<forall>fuel\<ge>n. leafCount fuel i m = Some r \<and> flattenLeaves fuel i m = Some r')
         \<and> (i \<in> dom m \<longrightarrow> (\<exists>k ls. r = Inr k \<and> r' = Inr ls))
         \<and> (i \<notin> dom m \<longrightarrow> r = Inl TypeError \<and> r' = Inl TypeError)"
  proof (cases "i \<in> dom m")
    case True
    from flattenLeaves_settles [OF f r a True] obtain ls n
      where n: "\<And>fuel. n \<le> fuel \<Longrightarrow> flattenLeaves fuel i m = Some (Inr ls)"
      unfolding settles_def by blast
    have "\<forall>fuel\<ge>n. leafCount fuel i m = Some (Inr (length ls))
             \<and> flattenLeaves fuel i m = Some (Inr ls)"
      by (simp add: n leafCount_flattenLeaves lengthResult_def)
    with True show ?thesis by blast
  next
    case False
    from missing_settles [OF False] obtain n
      where n: "\<And>fuel. n \<le> fuel \<Longrightarrow> flattenLeaves fuel i m = Some (Inl TypeError)"
      unfolding settles_def by blast
    have "\<forall>fuel\<ge>n. leafCount fuel i m = Some (Inl TypeError)
             \<and> flattenLeaves fuel i m = Some (Inl TypeError)"
      by (simp add: n leafCount_flattenLeaves lengthResult_def)
    with False show ?thesis by blast
  qed
next
  assume "acyclic (childRel (findBlock blocks))"
  then have "acyclic (subtreeRel (findBlock blocks) j)" by (rule acyclic_subtreeRel)
  then show "\<exists>n. \<forall>fuel\<ge>n. \<forall>removeIds.
         dfs fuel blocks j removeIds = Some (removeIds \<union> subtreeIds (findBlock blocks) j)"
    by (rule dfs_settles)
qed

theorem recursions_terminate_witness:
  "finite (dom (buildMap (rowBlocks initialState)))
   \<and> resolves (buildMap (rowBlocks initialState))
   \<and> acyclic (childRel (buildMap (rowBlocks initialState)))
   \<and> ''ROW_A'' \<in> dom (buildMap (rowBlocks initialState))
   \<and> ''NOPE'' \<notin> dom (buildMap (rowBlocks initialState))
   \<and> acyclic (childRel (findBlock (rowBlocks initialState)))
   \<and> (\<exists>n k ls. \<forall>fuel\<ge>n.
          leafCount fuel ''ROW_A'' (buildMap (rowBlocks initialState)) = Some (Inr k)
          \<and> flattenLeaves fuel ''ROW_A'' (buildMap (rowBlocks initialState)) = Some (Inr ls))
   \<and> (\<exists>n. \<forall>fuel\<ge>n.
          leafCount fuel ''NOPE'' (buildMap (rowBlocks initialState)) = Some (Inl TypeError)
          \<and> flattenLeaves fuel ''NOPE'' (buildMap (rowBlocks initialState)) = Some (Inl TypeError))
   \<and> (\<exists>n. \<forall>fuel\<ge>n. \<forall>removeIds.
          dfs fuel (rowBlocks initialState) ''ROW_A'' removeIds
            = Some (removeIds \<union> subtreeIds (findBlock (rowBlocks initialState)) ''ROW_A''))
   \<and> leafCount 2 ''ROW_A'' (buildMap (rowBlocks initialState)) = Some (Inr 2)
   \<and> flattenLeaves 2 ''ROW_A'' (buildMap (rowBlocks initialState))
        = Some (Inr [''ROW_A1'', ''ROW_A2''])
   \<and> dfs 2 (rowBlocks initialState) ''ROW_A'' {} = Some {''ROW_A'', ''ROW_A1'', ''ROW_A2''}"
proof -
  have f: "forest (rowBlocks initialState)" by code_simp
  have m: "buildMap (rowBlocks initialState) = findBlock (rowBlocks initialState)"
    using forest_distinct [OF f] by (rule buildMap_findBlock)
  have h1: "finite (dom (buildMap (rowBlocks initialState)))" by (simp add: m dom_findBlock)
  have h2: "resolves (buildMap (rowBlocks initialState))" using forest_resolves [OF f] by (simp add: m)
  have h3: "acyclic (childRel (buildMap (rowBlocks initialState)))"
    using forest_acyclic [OF f] by (simp add: m)
  have h4: "''ROW_A'' \<in> dom (buildMap (rowBlocks initialState))"
    unfolding m dom_findBlock by (simp add: initialState_def)
  have h4': "''NOPE'' \<notin> dom (buildMap (rowBlocks initialState))"
    unfolding m dom_findBlock by (simp add: initialState_def)
  have h5: "acyclic (childRel (findBlock (rowBlocks initialState)))"
    using forest_acyclic [OF f] .
  have e1: "leafCount 2 ''ROW_A'' (buildMap (rowBlocks initialState)) = Some (Inr 2)"
    by code_simp
  have e2: "flattenLeaves 2 ''ROW_A'' (buildMap (rowBlocks initialState))
        = Some (Inr [''ROW_A1'', ''ROW_A2''])" by code_simp
  have e3: "dfs 2 (rowBlocks initialState) ''ROW_A'' {} = Some {''ROW_A'', ''ROW_A1'', ''ROW_A2''}"
    by code_simp
  have t1: "\<exists>n k ls. \<forall>fuel\<ge>n.
          leafCount fuel ''ROW_A'' (buildMap (rowBlocks initialState)) = Some (Inr k)
          \<and> flattenLeaves fuel ''ROW_A'' (buildMap (rowBlocks initialState)) = Some (Inr ls)"
    using h1 h2 h3 h4
      recursions_terminate [of "buildMap (rowBlocks initialState)" "''ROW_A''"
        "rowBlocks initialState" "''ROW_A''"]
    by blast
  have t2: "\<exists>n. \<forall>fuel\<ge>n.
          leafCount fuel ''NOPE'' (buildMap (rowBlocks initialState)) = Some (Inl TypeError)
          \<and> flattenLeaves fuel ''NOPE'' (buildMap (rowBlocks initialState)) = Some (Inl TypeError)"
    using h1 h2 h3 h4'
      recursions_terminate [of "buildMap (rowBlocks initialState)" "''NOPE''"
        "rowBlocks initialState" "''ROW_A''"]
    by blast
  have t3: "\<exists>n. \<forall>fuel\<ge>n. \<forall>removeIds.
          dfs fuel (rowBlocks initialState) ''ROW_A'' removeIds
            = Some (removeIds \<union> subtreeIds (findBlock (rowBlocks initialState)) ''ROW_A'')"
    using h5
      recursions_terminate [of "buildMap (rowBlocks initialState)" "''ROW_A''"
        "rowBlocks initialState" "''ROW_A''"]
    by blast
  show ?thesis using h1 h2 h3 h4 h4' h5 t1 t2 t3 e1 e2 e3 by simp
qed

text \<open>
  The claim as stated, with no condition on the identifier, fails: the map built from the
  initial row blocks is finite, its child identifiers are keys and its child graph has no
  cycle, and on an identifier that is not a key the first lookup of \<^verbatim>\<open>leafCount\<close> and of
  \<^verbatim>\<open>flattenLeaves\<close> fails with a TypeError, at every recursion depth.
\<close>

theorem lookup_fails_counterexample:
  "finite (dom (buildMap (rowBlocks initialState)))
   \<and> resolves (buildMap (rowBlocks initialState))
   \<and> acyclic (childRel (buildMap (rowBlocks initialState)))
   \<and> leafCount 1 ''NOPE'' (buildMap (rowBlocks initialState)) = Some (Inl TypeError)
   \<and> flattenLeaves 1 ''NOPE'' (buildMap (rowBlocks initialState)) = Some (Inl TypeError)
   \<and> leafCount 10 ''NOPE'' (buildMap (rowBlocks initialState)) = Some (Inl TypeError)
   \<and> flattenLeaves 10 ''NOPE'' (buildMap (rowBlocks initialState)) = Some (Inl TypeError)"
proof -
  have f: "forest (rowBlocks initialState)" by code_simp
  have m: "buildMap (rowBlocks initialState) = findBlock (rowBlocks initialState)"
    using forest_distinct [OF f] by (rule buildMap_findBlock)
  have h1: "finite (dom (buildMap (rowBlocks initialState)))" by (simp add: m dom_findBlock)
  have h2: "resolves (buildMap (rowBlocks initialState))" using forest_resolves [OF f] by (simp add: m)
  have h3: "acyclic (childRel (buildMap (rowBlocks initialState)))"
    using forest_acyclic [OF f] by (simp add: m)
  have e1: "leafCount 1 ''NOPE'' (buildMap (rowBlocks initialState)) = Some (Inl TypeError)"
    by code_simp
  have e2: "flattenLeaves 1 ''NOPE'' (buildMap (rowBlocks initialState)) = Some (Inl TypeError)"
    by code_simp
  have e3: "leafCount 10 ''NOPE'' (buildMap (rowBlocks initialState)) = Some (Inl TypeError)"
    by code_simp
  have e4: "flattenLeaves 10 ''NOPE'' (buildMap (rowBlocks initialState)) = Some (Inl TypeError)"
    by code_simp
  show ?thesis using h1 h2 h3 e1 e2 e3 e4 by simp
qed

section \<open>The two reorderings\<close>

text \<open>
  Claim C9. On a block list satisfying the forest invariant, for a block \<open>p\<close> of the list
  and identifiers \<open>activeId\<close> and \<open>overId\<close> in its child sequence, the page's \<^verbatim>\<open>reorder\<close>
  returns the very list the store's \<^verbatim>\<open>reorderBlock\<close> leaves in the axis; in particular the
  child sequence of \<open>p\<close> is the same in both: \<open>activeId\<close> taken out at its index and put
  back at the index \<open>overId\<close> had. (The two identifiers need not be distinct.)
\<close>

theorem reorder_agrees:
  assumes f: "forest (axisBlocks axis s)"
    and p: "p \<in> set (axisBlocks axis s)"
    and a: "activeId \<in> set (children p)" and o: "overId \<in> set (children p)"
  shows "\<exists>q. reorder (axisBlocks axis s) activeId overId
                = Inr (axisBlocks axis (reorderBlock axis (idB p) activeId overId s))
            \<and> findBlock (axisBlocks axis (reorderBlock axis (idB p) activeId overId s)) (idB p)
                = Some q
            \<and> children q = insertAt (nat (indexOf (children p) overId)) activeId
                              (dropAt (nat (indexOf (children p) activeId)) (children p))"
proof -
  define blocks where "blocks = axisBlocks axis s"
  define nxt where "nxt = insertAt (nat (indexOf (children p) overId)) activeId
                              (dropAt (nat (indexOf (children p) activeId)) (children p))"
  have d: "distinct (map idB blocks)" using f by (simp add: blocks_def forest_distinct)
  have m: "buildMap blocks = findBlock blocks" using d by (rule buildMap_findBlock)
  have fp: "findBlock blocks (idB p) = Some p"
    using d p by (simp add: blocks_def findBlock_distinct)
  from forest_child [OF f p a] obtain ba
    where ba: "findBlock blocks activeId = Some ba" "idB ba = activeId" "parentId ba = Some (idB p)"
    unfolding blocks_def by blast
  from forest_child [OF f p o] obtain bo
    where bo: "findBlock blocks overId = Some bo" "idB bo = overId" "parentId bo = Some (idB p)"
    unfolding blocks_def by blast
  have page: "reorder blocks activeId overId
                = Inr (mutateFirst (\<lambda>b. idB b = idB p) (\<lambda>bl. bl\<lparr>children := nxt\<rparr>) blocks)"
  proof -
    have am: "arrayMove (children p) (indexOf (children p) activeId) (indexOf (children p) overId)
                = Inr nxt"
      unfolding nxt_def using a o by (rule arrayMove_found)
    have mm: "map (\<lambda>bl. if idB bl = idB p then bl\<lparr>children := nxt\<rparr> else bl) blocks
                = mutateFirst (\<lambda>b. idB b = idB p) (\<lambda>bl. bl\<lparr>children := nxt\<rparr>) blocks"
      using d by (rule map_mutateFirst)
    show ?thesis by (simp add: reorder_def m ba bo fp am mm)
  qed
  note fi = findBlock_findIndex [OF fp]
  have upd: "mutateFirst (\<lambda>b. idB b = idB p) (\<lambda>bl. bl\<lparr>children := nxt\<rparr>) blocks
               = blocks[nat (findIndex (\<lambda>b. idB b = idB p) blocks) := p\<lparr>children := nxt\<rparr>]"
    using fi by (simp add: mutateFirst_findIndex)
  have store: "axisBlocks axis (reorderBlock axis (idB p) activeId overId s)
                = blocks[nat (findIndex (\<lambda>b. idB b = idB p) blocks) := p\<lparr>children := nxt\<rparr>]"
    using reorderBlock_found [OF fp [unfolded blocks_def] a o]
    by (simp add: axisBlocks_setAxisBlocks insertAt_def nxt_def blocks_def)
  have k: "nat (findIndex (\<lambda>b. idB b = idB p) blocks) < length blocks"
    using findIndex_found [of "\<lambda>b. idB b = idB p" blocks] fi by simp
  have d': "distinct (map idB (blocks[nat (findIndex (\<lambda>b. idB b = idB p) blocks) := p\<lparr>children := nxt\<rparr>]))"
    using d fi k by (simp add: map_idB_update)
  have "p\<lparr>children := nxt\<rparr> \<in> set (blocks[nat (findIndex (\<lambda>b. idB b = idB p) blocks) := p\<lparr>children := nxt\<rparr>])"
    using k by (rule set_update_memI)
  from findBlock_distinct [OF d' this]
  have "findBlock (blocks[nat (findIndex (\<lambda>b. idB b = idB p) blocks) := p\<lparr>children := nxt\<rparr>]) (idB p)
          = Some (p\<lparr>children := nxt\<rparr>)" by simp
  with page upd store show ?thesis
    by (simp add: blocks_def [symmetric] nxt_def [symmetric])
qed

theorem reorder_agrees_witness:
  "forest (axisBlocks Row initialState)
   \<and> rowA \<in> set (axisBlocks Row initialState)
   \<and> ''ROW_A2'' \<in> set (children rowA) \<and> ''ROW_A1'' \<in> set (children rowA)
   \<and> reorder (axisBlocks Row initialState) ''ROW_A2'' ''ROW_A1''
        = Inr (axisBlocks Row (reorderBlock Row ''ROW_A'' ''ROW_A2'' ''ROW_A1'' initialState))
   \<and> (\<exists>q. findBlock (axisBlocks Row (reorderBlock Row ''ROW_A'' ''ROW_A2'' ''ROW_A1'' initialState))
              ''ROW_A'' = Some q
            \<and> children q = [''ROW_A2'', ''ROW_A1''])"
proof -
  have h1: "forest (axisBlocks Row initialState)" by code_simp
  have h2: "rowA \<in> set (axisBlocks Row initialState)"
    by (simp add: axisBlocks_def initialState_def rowA_def)
  have h3: "''ROW_A2'' \<in> set (children rowA)" and h4: "''ROW_A1'' \<in> set (children rowA)"
    by (simp_all add: rowA_def)
  have i: "idB rowA = ''ROW_A''" by (simp add: rowA_def)
  have c: "insertAt (nat (indexOf (children rowA) ''ROW_A1'')) ''ROW_A2''
             (dropAt (nat (indexOf (children rowA) ''ROW_A2'')) (children rowA))
           = [''ROW_A2'', ''ROW_A1'']"
    by (simp add: rowA_def indexOf_def insertAt_def dropAt_def)
  show ?thesis
    using h1 h2 h3 h4 reorder_agrees [OF h1 h2 h3 h4] by (simp add: i c)
qed

section \<open>The forest invariant\<close>

text \<open>
  Claim C3, as amended. On a state satisfying the forest invariant, \<^verbatim>\<open>reorderBlock\<close> and
  \<^verbatim>\<open>updateLabel\<close> keep the invariant for all arguments. \<^verbatim>\<open>addBlock\<close> keeps it when the
  parent is absent, or when the new block is fresh: its identifier is not in the axis's
  list, its child sequence is empty and its \<^verbatim>\<open>parentId\<close> is the given parent. \<^verbatim>\<open>removeBlock\<close>
  returns and keeps it when the identifier is absent, or names a block whose \<^verbatim>\<open>parentId\<close>
  is a non-empty string (so not the root).
\<close>

theorem mutations_preserve_forest:
  assumes "forestInv s"
  shows "forestInv (reorderBlock axis p activeId overId s)
     \<and> forestInv (updateLabel axis i l s)
     \<and> (p \<notin> set (map idB (axisBlocks axis s))
          \<or> (idB n \<notin> set (map idB (axisBlocks axis s))
              \<and> parentId n = Some p \<and> children n = [])
        \<longrightarrow> forestInv (addBlock axis p n s))
     \<and> (i \<notin> set (map idB (axisBlocks axis s))
          \<or> (\<exists>b pid. findBlock (axisBlocks axis s) i = Some b
                       \<and> parentId b = Some pid \<and> pid \<noteq> [])
        \<longrightarrow> (\<exists>k. \<forall>fuel\<ge>k. \<exists>s'. removeBlock fuel axis i s = Some s' \<and> forestInv s')
            \<and> (\<forall>fuel s'. removeBlock fuel axis i s = Some s' \<longrightarrow> forestInv s'))"
  using assms
  by (intro conjI impI reorderBlock_forestInv updateLabel_forestInv addBlock_forestInv
      removeBlock_forestInv [THEN conjunct1] removeBlock_forestInv [THEN conjunct2])

theorem mutations_preserve_forest_witness:
  "forestInv initialState
   \<and> idB rowB2 \<notin> set (map idB (axisBlocks Row initialState))
   \<and> parentId rowB2 = Some ''ROW_B'' \<and> children rowB2 = []
   \<and> findBlock (axisBlocks Row initialState) ''ROW_A'' = Some rowA
   \<and> parentId rowA = Some ''ROW_ROOT'' \<and> ''ROW_ROOT'' \<noteq> []
   \<and> forestInv (reorderBlock Row ''ROW_A'' ''ROW_A2'' ''ROW_A1'' initialState)
   \<and> forestInv (updateLabel Row ''ROW_A'' ''new'' initialState)
   \<and> forestInv (addBlock Row ''ROW_B'' rowB2 initialState)
   \<and> removeBlock 2 Row ''ROW_A'' initialState \<noteq> None
   \<and> forestInv (the (removeBlock 2 Row ''ROW_A'' initialState))"
proof -
  have h0: "forestInv initialState" by code_simp
  have h1: "idB rowB2 \<notin> set (map idB (axisBlocks Row initialState))"
    "parentId rowB2 = Some ''ROW_B''" "children rowB2 = []"
    by (simp_all add: rowB2_def axisBlocks_def initialState_def)
  have h2: "findBlock (axisBlocks Row initialState) ''ROW_A'' = Some rowA"
    by (simp add: axisBlocks_def initialState_def findBlock_def rowA_def)
  have h3: "parentId rowA = Some ''ROW_ROOT''" "''ROW_ROOT'' \<noteq> []" by (simp_all add: rowA_def)
  have r: "removeBlock 2 Row ''ROW_A'' initialState \<noteq> None" by code_simp
  note t = mutations_preserve_forest [OF h0, of Row "''ROW_A''" "''ROW_A2''" "''ROW_A1''"
      "''ROW_A''" "''new''" rowB2]
  have t1: "forestInv (reorderBlock Row ''ROW_A'' ''ROW_A2'' ''ROW_A1'' initialState)"
    and t2: "forestInv (updateLabel Row ''ROW_A'' ''new'' initialState)"
    using t by simp_all
  have t3: "forestInv (addBlock Row ''ROW_B'' rowB2 initialState)"
    using mutations_preserve_forest [OF h0, of Row "''ROW_B''" "''ROW_A2''" "''ROW_A1''"
      "''ROW_A''" "''new''" rowB2] h1 by simp
  have "\<forall>fuel s'. removeBlock fuel Row ''ROW_A'' initialState = Some s' \<longrightarrow> forestInv s'"
    using t h2 h3 by blast
  with r have t4: "forestInv (the (removeBlock 2 Row ''ROW_A'' initialState))" by auto
  show ?thesis using h0 h1 h2 h3 r t1 t2 t3 t4 by simp
qed

text \<open>
  The claim as stated, for any arguments, fails: \<^verbatim>\<open>addBlock\<close> accepts a block whose identifier
  is already in the list, and \<^verbatim>\<open>removeBlock\<close> of the root leaves the axis empty.
\<close>

theorem mutations_break_forest_counterexample:
  "forestInv initialState
   \<and> \<not> forestInv (addBlock Row ''ROW_ROOT'' rowA initialState)
   \<and> removeBlock 3 Row ''ROW_ROOT'' initialState \<noteq> None
   \<and> \<not> forestInv (the (removeBlock 3 Row ''ROW_ROOT'' initialState))"
  by code_simp

section \<open>Deleting a subtree\<close>

text \<open>
  Claim C1: on a state satisfying the forest invariant, \<^verbatim>\<open>removeBlock(axis, id)\<close> removes
  from the list exactly the identifiers of \<open>id\<close>'s subtree and removes \<open>id\<close> from its parent's
  child sequence. Lemma \<open>removeBlock_removes_subtree\<close> proves this whenever the parent's
  identifier is not the empty string. Where it is, \<^verbatim>\<open>if (block.parentId)\<close> is false and the
  removal from the parent is skipped: in the state below, which satisfies the invariant,
  removing \<open>X\<close> takes it out of the list and leaves it in the child sequence of its parent.
\<close>

theorem removeBlock_keeps_child_of_empty_id:
  "forestInv (addBlock Row [] xBlock emptyIdState)
   \<and> ''X'' \<in> set (idsOf Row (addBlock Row [] xBlock emptyIdState))
   \<and> childrenOf Row [] (addBlock Row [] xBlock emptyIdState) = Some [''X'']
   \<and> map_option (idsOf Row) (removeBlock 1 Row ''X'' (addBlock Row [] xBlock emptyIdState))
       = Some [''ROW_ROOT'', ''ROW_A'', ''ROW_B'', ''ROW_A1'', ''ROW_A2'', ''ROW_B1'', []]
   \<and> Option.bind (removeBlock 1 Row ''X'' (addBlock Row [] xBlock emptyIdState))
        (childrenOf Row []) = Some [''X'']"
  by code_simp

text \<open>
  Claim C2: on a state satisfying the forest invariant, for a parent \<open>p\<close> in the list and a
  fresh block \<open>n\<close> with no children and \<^verbatim>\<open>parentId\<close> \<open>p\<close>, \<^verbatim>\<open>addBlock(axis, p, n)\<close> followed
  by \<^verbatim>\<open>removeBlock(axis, n.id)\<close> restores \<open>p\<close>'s child sequence and the blocks of the list. Lemma
  \<open>addBlock_removeBlock_restores\<close> proves that the whole state is restored whenever \<open>p\<close> is
  not the empty string. Where it is, the removal from the parent is skipped as above and
  the parent keeps the new identifier in its child sequence.
\<close>

theorem addBlock_removeBlock_empty_parent_id:
  "forestInv emptyIdState
   \<and> [] \<in> set (idsOf Row emptyIdState)
   \<and> idB xBlock \<notin> set (idsOf Row emptyIdState)
   \<and> children xBlock = [] \<and> parentId xBlock = Some []
   \<and> childrenOf Row [] emptyIdState = Some []
   \<and> Option.bind (removeBlock 1 Row (idB xBlock) (addBlock Row [] xBlock emptyIdState))
        (childrenOf Row []) = Some [''X'']"
  by code_simp

end
